theory Spec2Isabelle
  imports Complex_Main "HOL-Library.Word"
begin

unbundle bit_operations_syntax

section \<open>Buffers, machine integers and outcomes\<close>

text \<open>
  The kernels of \<^verbatim>\<open>simsimd.h\<close> take two read-only pointers and a length.  A pointer is
  modelled by the buffer it points to, a list of elements; \<^verbatim>\<open>p + i\<close> is the position
  \<open>unat i\<close> in that list.  Nothing in the header checks a length, so a load that
  leaves the buffer is undefined behaviour in C: the model writes it out as the fault
  \<open>Out_of_bounds\<close>.  A loop whose exit test is never met has no result at all.  The
  outcome of a call is therefore an \<open>option\<close> of a sum: \<open>None\<close> (the loop runs
  forever), \<open>Some (Inl Out_of_bounds)\<close> (a load left a buffer) or \<open>Some (Inr r)\<close>
  (the call returns \<open>r\<close>).
\<close>

type_synonym size_t = "64 word"
type_synonym uint8_t = "8 word"
type_synonym int8_t = "8 word"
type_synonym int16_t = "16 word"
type_synonym int32_t = "32 word"
type_synonym uint64_t = "64 word"

datatype fault = Out_of_bounds

type_synonym 'a outcome = "(fault + 'a) option"

text \<open>\<open>load_elems p off n\<close>: the \<open>n\<close> consecutive elements of \<open>p\<close> from position \<open>off\<close>.\<close>

definition load_elems :: "'a list \<Rightarrow> nat \<Rightarrow> nat \<Rightarrow> fault + 'a list" where
  "load_elems p off n =
     (if off + n \<le> length p then Inr (take n (drop off p)) else Inl Out_of_bounds)"

text \<open>The number of set bits of a machine word.\<close>

definition popcount :: "'a::len word \<Rightarrow> nat" where
  "popcount w = length (filter (bit w) [0..<LENGTH('a)])"

text \<open>
  The floating-point unit is a parameter of the float kernels: the lanes have some type
  \<open>'f\<close>, and the hardware supplies zero, addition, subtraction, multiplication and the
  fused multiply-add \<open>fma x y z\<close> (\<open>x * y + z\<close> with one rounding).  \<open>mla_x acc x y\<close> is
  what the don't-care form of the scalable multiply-accumulate leaves in a lane that
  its predicate switches off, given the three operand lanes; \<open>sub_x x y\<close> is the same
  for the don't-care subtraction.
\<close>

record 'f fpu =
  fzero :: 'f
  fadd :: "'f \<Rightarrow> 'f \<Rightarrow> 'f"
  fsub :: "'f \<Rightarrow> 'f \<Rightarrow> 'f"
  fmul :: "'f \<Rightarrow> 'f \<Rightarrow> 'f"
  fma :: "'f \<Rightarrow> 'f \<Rightarrow> 'f \<Rightarrow> 'f"
  mla_x :: "'f \<Rightarrow> 'f \<Rightarrow> 'f \<Rightarrow> 'f"
  sub_x :: "'f \<Rightarrow> 'f \<Rightarrow> 'f"

text \<open>
  One instance, for running the float kernels on concrete inputs: arithmetic without
  rounding on integer-valued lanes, a switched-off lane keeping its accumulator (its
  first operand).
\<close>

definition exact_fpu :: "int fpu" where
  "exact_fpu =
     \<lparr>fzero = 0, fadd = (+), fsub = (-), fmul = (*), fma = (\<lambda>x y z. x * y + z),
      mla_x = (\<lambda>acc x y. acc), sub_x = (\<lambda>x y. x)\<rparr>"

text \<open>
  The don't-care multiply-accumulate may also be compiled to the instruction form whose
  destination register is the first multiplicand; a switched-off lane then holds that
  multiplicand.  The same exact arithmetic with this choice:
\<close>

definition exact_fpu_multiplicand :: "int fpu" where
  "exact_fpu_multiplicand = exact_fpu\<lparr>mla_x := (\<lambda>acc x y. x)\<rparr>"


text \<open>Arithmetic without rounding on real-valued lanes, with its scalar operations.\<close>

definition real_fpu :: "real fpu" where
  "real_fpu =
     \<lparr>fzero = 0, fadd = (+), fsub = (-), fmul = (*), fma = (\<lambda>x y z. x * y + z),
      mla_x = (\<lambda>acc x y. acc), sub_x = (\<lambda>x y. x)\<rparr>"


section \<open>Fixed-width 128-bit kernels (NEON)\<close>

subsection \<open>Intrinsics\<close>

definition vdupq_n_u8 :: "uint8_t \<Rightarrow> uint8_t list" where
  "vdupq_n_u8 x = replicate 16 x"

definition vld1q_u8 :: "uint8_t list \<Rightarrow> size_t \<Rightarrow> fault + uint8_t list" where
  "vld1q_u8 p i = load_elems p (unat i) 16"

definition veorq_u8 :: "uint8_t list \<Rightarrow> uint8_t list \<Rightarrow> uint8_t list" where
  "veorq_u8 x y = map2 (XOR) x y"

definition vcntq_u8 :: "uint8_t list \<Rightarrow> uint8_t list" where
  "vcntq_u8 x = map (\<lambda>v. of_nat (popcount v)) x"

definition vaddq_u8 :: "uint8_t list \<Rightarrow> uint8_t list \<Rightarrow> uint8_t list" where
  "vaddq_u8 x y = map2 (+) x y"

text \<open>\<^verbatim>\<open>vaddvq_u8\<close> returns a \<^verbatim>\<open>uint8_t\<close>: the sum of the sixteen lanes, modulo 256.\<close>

definition vaddvq_u8 :: "uint8_t list \<Rightarrow> uint8_t" where
  "vaddvq_u8 x = sum_list x"

definition vdupq_n_f32 :: "'f fpu \<Rightarrow> 'f list" where
  "vdupq_n_f32 fp = replicate 4 (fzero fp)"

definition vld1q_f32 :: "'f list \<Rightarrow> size_t \<Rightarrow> fault + 'f list" where
  "vld1q_f32 p i = load_elems p (unat i) 4"

text \<open>\<^verbatim>\<open>vmlaq_f32(acc, x, y)\<close>: \<open>acc + x * y\<close> in every lane.\<close>

definition vmlaq_f32 :: "'f fpu \<Rightarrow> 'f list \<Rightarrow> 'f list \<Rightarrow> 'f list \<Rightarrow> 'f list" where
  "vmlaq_f32 fp acc x y = map2 (fadd fp) acc (map2 (fmul fp) x y)"

text \<open>\<^verbatim>\<open>vaddvq_f32\<close>: the pairwise sum across the four lanes.\<close>

definition vaddvq_f32 :: "'f fpu \<Rightarrow> 'f list \<Rightarrow> 'f" where
  "vaddvq_f32 fp v = fadd fp (fadd fp (v ! 0) (v ! 1)) (fadd fp (v ! 2) (v ! 3))"

subsection \<open>\<^verbatim>\<open>simsimd_dot_f32x4neon\<close>\<close>

partial_function (option) dot_f32x4neon_loop ::
  "'f fpu \<Rightarrow> 'f list \<Rightarrow> 'f list \<Rightarrow> size_t \<Rightarrow> size_t \<Rightarrow> 'f list \<Rightarrow> 'f list outcome"
where
  "dot_f32x4neon_loop fp a b d i ab_vec =
     (if i \<noteq> d then
        (case vld1q_f32 a i of Inl e \<Rightarrow> Some (Inl e) | Inr a_vec \<Rightarrow>
         (case vld1q_f32 b i of Inl e \<Rightarrow> Some (Inl e) | Inr b_vec \<Rightarrow>
           dot_f32x4neon_loop fp a b d (i + 4) (vmlaq_f32 fp ab_vec a_vec b_vec)))
      else Some (Inr ab_vec))"

declare dot_f32x4neon_loop.simps [code]

definition simsimd_dot_f32x4neon :: "'f fpu \<Rightarrow> 'f list \<Rightarrow> 'f list \<Rightarrow> size_t \<Rightarrow> 'f outcome" where
  "simsimd_dot_f32x4neon fp a b d =
     map_option (map_sum id (vaddvq_f32 fp)) (dot_f32x4neon_loop fp a b d 0 (vdupq_n_f32 fp))"

subsection \<open>\<^verbatim>\<open>simsimd_cos_f32x4neon\<close>\<close>




subsection \<open>\<^verbatim>\<open>simsimd_hamming_u1x128sve\<close>\<close>

partial_function (option) hamming_u1x128sve_loop ::
  "uint8_t list \<Rightarrow> uint8_t list \<Rightarrow> size_t \<Rightarrow> size_t \<Rightarrow> uint8_t list \<Rightarrow> uint8_t list outcome"
where
  "hamming_u1x128sve_loop a b d i d_vec =
     (if i \<noteq> d then
        (case vld1q_u8 a i of Inl e \<Rightarrow> Some (Inl e) | Inr a_vec \<Rightarrow>
         (case vld1q_u8 b i of Inl e \<Rightarrow> Some (Inl e) | Inr b_vec \<Rightarrow>
           let a_xor_b_vec = veorq_u8 a_vec b_vec
           in hamming_u1x128sve_loop a b d (i + 16) (vaddq_u8 d_vec (vcntq_u8 a_xor_b_vec))))
      else Some (Inr d_vec))"

declare hamming_u1x128sve_loop.simps [code]

text \<open>The \<^verbatim>\<open>uint8_t\<close> that \<^verbatim>\<open>vaddvq_u8\<close> returns is converted to the \<^verbatim>\<open>size_t\<close> result.\<close>

definition simsimd_hamming_u1x128sve :: "uint8_t list \<Rightarrow> uint8_t list \<Rightarrow> size_t \<Rightarrow> size_t outcome" where
  "simsimd_hamming_u1x128sve a b d =
     map_option (map_sum id (\<lambda>d_vec. ucast (vaddvq_u8 d_vec)))
       (hamming_u1x128sve_loop a b d 0 (vdupq_n_u8 0))"

section \<open>Kernels of the 256-bit extension (AVX2)\<close>

subsection \<open>Intrinsics\<close>

text \<open>An \<^verbatim>\<open>__m128\<close> holds four float lanes; \<^verbatim>\<open>_mm_set1_ps(0)\<close> fills them with zero.\<close>

definition mm_set1_ps :: "'f fpu \<Rightarrow> 'f list" where
  "mm_set1_ps fp = replicate 4 (fzero fp)"

definition mm_loadu_ps :: "'f list \<Rightarrow> size_t \<Rightarrow> fault + 'f list" where
  "mm_loadu_ps p i = load_elems p (unat i) 4"

text \<open>\<^verbatim>\<open>_mm_fmadd_ps(x, y, z)\<close>: the fused \<open>x * y + z\<close> in every lane.\<close>

definition mm_fmadd_ps :: "'f fpu \<Rightarrow> 'f list \<Rightarrow> 'f list \<Rightarrow> 'f list \<Rightarrow> 'f list" where
  "mm_fmadd_ps fp x y z = map (\<lambda>(u, v, w). fma fp u v w) (zip x (zip y z))"

definition mm_hadd_ps :: "'f fpu \<Rightarrow> 'f list \<Rightarrow> 'f list \<Rightarrow> 'f list" where
  "mm_hadd_ps fp x y =
     [fadd fp (x ! 0) (x ! 1), fadd fp (x ! 2) (x ! 3),
      fadd fp (y ! 0) (y ! 1), fadd fp (y ! 2) (y ! 3)]"

text \<open>
  \<^verbatim>\<open>_mm_cvtsi128_si32(_mm_castps_si128(v))\<close> stored through the union
  \<^verbatim>\<open>simsimd_f32i32_t\<close> and read back as \<^verbatim>\<open>.f\<close>: the bits of the lowest lane, read as a
  float again, that is, the lowest lane.
\<close>

definition low_lane_f32 :: "'f list \<Rightarrow> 'f" where
  "low_lane_f32 v = v ! 0"

text \<open>An \<^verbatim>\<open>__m256i\<close> is used as sixteen 16-bit lanes.\<close>

definition mm256_set1_epi16 :: "int16_t \<Rightarrow> int16_t list" where
  "mm256_set1_epi16 x = replicate 16 x"

text \<open>\<^verbatim>\<open>_mm_loadu_si128((__m128i const*)(p + i))\<close>: sixteen bytes from position \<open>i\<close>.\<close>

definition mm_loadu_si128 :: "int8_t list \<Rightarrow> size_t \<Rightarrow> fault + int8_t list" where
  "mm_loadu_si128 p i = load_elems p (unat i) 16"

text \<open>Sign extension of sixteen bytes to sixteen 16-bit lanes.\<close>

definition mm256_cvtepi8_epi16 :: "int8_t list \<Rightarrow> int16_t list" where
  "mm256_cvtepi8_epi16 x = map scast x"

definition mm256_mullo_epi16 :: "int16_t list \<Rightarrow> int16_t list \<Rightarrow> int16_t list" where
  "mm256_mullo_epi16 x y = map2 (*) x y"

definition mm256_add_epi16 :: "int16_t list \<Rightarrow> int16_t list \<Rightarrow> int16_t list" where
  "mm256_add_epi16 x y = map2 (+) x y"

text \<open>
  \<^verbatim>\<open>_mm256_hadd_epi16\<close> adds neighbours inside each 128-bit half: lanes 0..7 of the
  result come from lanes 0..7 of the operands, lanes 8..15 from lanes 8..15.
\<close>

definition mm256_hadd_epi16 :: "int16_t list \<Rightarrow> int16_t list \<Rightarrow> int16_t list" where
  "mm256_hadd_epi16 x y =
     [x ! 0 + x ! 1, x ! 2 + x ! 3, x ! 4 + x ! 5, x ! 6 + x ! 7,
      y ! 0 + y ! 1, y ! 2 + y ! 3, y ! 4 + y ! 5, y ! 6 + y ! 7,
      x ! 8 + x ! 9, x ! 10 + x ! 11, x ! 12 + x ! 13, x ! 14 + x ! 15,
      y ! 8 + y ! 9, y ! 10 + y ! 11, y ! 12 + y ! 13, y ! 14 + y ! 15]"

text \<open>The low 32 bits of the register: lane 1 above lane 0.\<close>

definition mm256_cvtsi256_si32 :: "int16_t list \<Rightarrow> int32_t" where
  "mm256_cvtsi256_si32 v = word_cat (v ! 1) (v ! 0)"

subsection \<open>\<^verbatim>\<open>simsimd_dot_f32x4avx2\<close>\<close>

partial_function (option) dot_f32x4avx2_loop ::
  "'f fpu \<Rightarrow> 'f list \<Rightarrow> 'f list \<Rightarrow> size_t \<Rightarrow> size_t \<Rightarrow> 'f list \<Rightarrow> 'f list outcome"
where
  "dot_f32x4avx2_loop fp a b d i ab_vec =
     (if i \<noteq> d then
        (case mm_loadu_ps a i of Inl e \<Rightarrow> Some (Inl e) | Inr a_vec \<Rightarrow>
         (case mm_loadu_ps b i of Inl e \<Rightarrow> Some (Inl e) | Inr b_vec \<Rightarrow>
           dot_f32x4avx2_loop fp a b d (i + 4) (mm_fmadd_ps fp a_vec b_vec ab_vec)))
      else Some (Inr ab_vec))"

declare dot_f32x4avx2_loop.simps [code]

definition simsimd_dot_f32x4avx2 :: "'f fpu \<Rightarrow> 'f list \<Rightarrow> 'f list \<Rightarrow> size_t \<Rightarrow> 'f outcome" where
  "simsimd_dot_f32x4avx2 fp a b d =
     map_option
       (map_sum id
          (\<lambda>ab_vec.
             let ab_vec = mm_hadd_ps fp ab_vec ab_vec;
                 ab_vec = mm_hadd_ps fp ab_vec ab_vec
             in low_lane_f32 ab_vec))
       (dot_f32x4avx2_loop fp a b d 0 (mm_set1_ps fp))"

subsection \<open>\<^verbatim>\<open>simsimd_dot_i8x16avx2\<close>\<close>

text \<open>The loop loads sixteen bytes from \<open>a + i\<close> and from \<open>b + i\<close> and advances \<open>i\<close> by 4.\<close>

partial_function (option) dot_i8x16avx2_loop ::
  "int8_t list \<Rightarrow> int8_t list \<Rightarrow> size_t \<Rightarrow> size_t \<Rightarrow> int16_t list \<Rightarrow> int16_t list outcome"
where
  "dot_i8x16avx2_loop a b d i ab_vec =
     (if i \<noteq> d then
        (case mm_loadu_si128 a i of Inl e \<Rightarrow> Some (Inl e) | Inr a_vec \<Rightarrow>
         (case mm_loadu_si128 b i of Inl e \<Rightarrow> Some (Inl e) | Inr b_vec \<Rightarrow>
           dot_i8x16avx2_loop a b d (i + 4)
             (mm256_add_epi16 ab_vec
                (mm256_mullo_epi16 (mm256_cvtepi8_epi16 a_vec) (mm256_cvtepi8_epi16 b_vec)))))
      else Some (Inr ab_vec))"

declare dot_i8x16avx2_loop.simps [code]

definition simsimd_dot_i8x16avx2 :: "int8_t list \<Rightarrow> int8_t list \<Rightarrow> size_t \<Rightarrow> int32_t outcome" where
  "simsimd_dot_i8x16avx2 a b d =
     map_option
       (map_sum id
          (\<lambda>ab_vec.
             let ab_vec = mm256_hadd_epi16 ab_vec ab_vec;
                 ab_vec = mm256_hadd_epi16 ab_vec ab_vec;
                 ab_vec = mm256_hadd_epi16 ab_vec ab_vec
             in mm256_cvtsi256_si32 ab_vec AND 0xFF))
       (dot_i8x16avx2_loop a b d 0 (mm256_set1_epi16 0))"

subsection \<open>\<^verbatim>\<open>simsimd_cos_f32x4avx2\<close>\<close>




section \<open>The 512-bit population-count kernel (AVX-512 VPOPCNTDQ)\<close>

subsection \<open>Intrinsics\<close>

text \<open>Eight bytes of a buffer read as one \<^verbatim>\<open>uint64_t\<close> (little-endian, as on x86).\<close>

fun le_uint64 :: "uint8_t list \<Rightarrow> uint64_t" where
  "le_uint64 [] = 0"
| "le_uint64 (x # xs) = ucast x OR push_bit 8 (le_uint64 xs)"

text \<open>
  An \<^verbatim>\<open>__m128i\<close> is used as two 64-bit lanes, lane 0 the low one.
  \<^verbatim>\<open>_mm_load_si128((__m128i const*)(p64 + i))\<close> reads the sixteen bytes from byte
  position \<open>8 * i\<close> of the underlying byte buffer.  The 16-byte alignment that this
  load requires of the address is not modelled.
\<close>

definition mm_load_si128 :: "uint8_t list \<Rightarrow> size_t \<Rightarrow> fault + uint64_t list" where
  "mm_load_si128 p i =
     (case load_elems p (8 * unat i) 16 of
        Inl e \<Rightarrow> Inl e
      | Inr bytes \<Rightarrow> Inr [le_uint64 (take 8 bytes), le_uint64 (drop 8 bytes)])"

definition mm_set_epi64x :: "uint64_t \<Rightarrow> uint64_t \<Rightarrow> uint64_t list" where
  "mm_set_epi64x e1 e0 = [e0, e1]"

definition mm_xor_si128 :: "uint64_t list \<Rightarrow> uint64_t list \<Rightarrow> uint64_t list" where
  "mm_xor_si128 x y = map2 (XOR) x y"

definition mm_popcnt_epi64 :: "uint64_t list \<Rightarrow> uint64_t list" where
  "mm_popcnt_epi64 x = map (\<lambda>v. of_nat (popcount v)) x"

definition mm_add_epi64 :: "uint64_t list \<Rightarrow> uint64_t list \<Rightarrow> uint64_t list" where
  "mm_add_epi64 x y = map2 (+) x y"

text \<open>\<^verbatim>\<open>_mm_cvtm64_si64(_mm_movepi64_pi64(v))\<close> is the low lane, \<^verbatim>\<open>_mm_extract_epi64(v, 1)\<close> the high one.\<close>

definition mm_movepi64_pi64 :: "uint64_t list \<Rightarrow> uint64_t" where
  "mm_movepi64_pi64 v = v ! 0"

definition mm_cvtm64_si64 :: "uint64_t \<Rightarrow> uint64_t" where
  "mm_cvtm64_si64 x = x"

definition mm_extract_epi64 :: "uint64_t list \<Rightarrow> nat \<Rightarrow> uint64_t" where
  "mm_extract_epi64 v k = v ! k"

subsection \<open>\<^verbatim>\<open>simsimd_hamming_u1x128avx512\<close>\<close>

partial_function (option) hamming_u1x128avx512_loop ::
  "uint8_t list \<Rightarrow> uint8_t list \<Rightarrow> size_t \<Rightarrow> size_t \<Rightarrow> uint64_t list \<Rightarrow> uint64_t list outcome"
where
  "hamming_u1x128avx512_loop a b words i d_vec =
     (if i \<noteq> words then
        (case mm_load_si128 a i of Inl e \<Rightarrow> Some (Inl e) | Inr a_vec \<Rightarrow>
         (case mm_load_si128 b i of Inl e \<Rightarrow> Some (Inl e) | Inr b_vec \<Rightarrow>
           hamming_u1x128avx512_loop a b words (i + 2)
             (mm_add_epi64 d_vec (mm_popcnt_epi64 (mm_xor_si128 a_vec b_vec)))))
      else Some (Inr d_vec))"

declare hamming_u1x128avx512_loop.simps [code]

definition simsimd_hamming_u1x128avx512 :: "uint8_t list \<Rightarrow> uint8_t list \<Rightarrow> size_t \<Rightarrow> size_t outcome" where
  "simsimd_hamming_u1x128avx512 a b d =
     (let words = d div 128
      in map_option
           (map_sum id
              (\<lambda>d_vec. mm_cvtm64_si64 (mm_movepi64_pi64 d_vec) + mm_extract_epi64 d_vec 1))
           (hamming_u1x128avx512_loop a b words 0 (mm_set_epi64x 0 0)))"

section \<open>Kernels of the scalable vector extension (SVE)\<close>

subsection \<open>Vector length, predicates and intrinsics\<close>

text \<open>
  The vector length is fixed by the hardware and read at run time: \<open>vq\<close> is the number
  of 128-bit quadwords of a vector, so a vector has \<open>16 * vq\<close> byte lanes and
  \<open>4 * vq\<close> 32-bit lanes.  \<open>cnt_x\<close> is what the don't-care form of the byte population
  count leaves in a lane that its predicate switches off.
\<close>

record sve_hw =
  vq :: nat
  cnt_x :: "uint8_t \<Rightarrow> uint8_t"

text \<open>The smallest implementation: 128-bit vectors.\<close>

definition sve_128 :: sve_hw where
  "sve_128 = \<lparr>vq = 1, cnt_x = (\<lambda>x. x)\<rparr>"

definition svcntb :: "sve_hw \<Rightarrow> uint64_t" where
  "svcntb hw = of_nat (16 * vq hw)"

definition svcntw :: "sve_hw \<Rightarrow> uint64_t" where
  "svcntw hw = of_nat (4 * vq hw)"

text \<open>
  An \<^verbatim>\<open>svbool_t\<close> has one bit per byte lane.  An element of four bytes is governed by
  the bit of its lowest byte: 32-bit lane \<open>e\<close> by bit \<open>4 * e\<close>.  The predicates built
  for 32-bit lanes leave the other three bits of each group clear.
\<close>

type_synonym svbool_t = "bool list"

definition svwhilelt_b8 :: "sve_hw \<Rightarrow> size_t \<Rightarrow> size_t \<Rightarrow> svbool_t" where
  "svwhilelt_b8 hw i d = map (\<lambda>j. unat i + j < unat d) [0..<16 * vq hw]"

definition svwhilelt_b32 :: "sve_hw \<Rightarrow> size_t \<Rightarrow> size_t \<Rightarrow> svbool_t" where
  "svwhilelt_b32 hw i d =
     map (\<lambda>j. j mod 4 = 0 \<and> unat i + j div 4 < unat d) [0..<16 * vq hw]"

definition svptrue_b32 :: "sve_hw \<Rightarrow> svbool_t" where
  "svptrue_b32 hw = map (\<lambda>j. j mod 4 = 0) [0..<16 * vq hw]"

text \<open>The same for 16-bit lanes: lane \<open>e\<close> is governed by bit \<open>2 * e\<close>.\<close>

definition svcnth :: "sve_hw \<Rightarrow> uint64_t" where
  "svcnth hw = of_nat (8 * vq hw)"

definition svwhilelt_b16 :: "sve_hw \<Rightarrow> size_t \<Rightarrow> size_t \<Rightarrow> svbool_t" where
  "svwhilelt_b16 hw i d =
     map (\<lambda>j. j mod 2 = 0 \<and> unat i + j div 2 < unat d) [0..<16 * vq hw]"

definition svptrue_b16 :: "sve_hw \<Rightarrow> svbool_t" where
  "svptrue_b16 hw = map (\<lambda>j. j mod 2 = 0) [0..<16 * vq hw]"

definition svptest_any :: "svbool_t \<Rightarrow> svbool_t \<Rightarrow> bool" where
  "svptest_any pg p = list_ex (\<lambda>(g, x). g \<and> x) (zip pg p)"

text \<open>
  \<^verbatim>\<open>svdupq_n_u8\<close> and \<^verbatim>\<open>svdupq_n_f32\<close> repeat one quadword (sixteen bytes, four floats)
  over the whole vector.
\<close>

definition svdupq_n_u8 :: "sve_hw \<Rightarrow> uint8_t list \<Rightarrow> uint8_t list" where
  "svdupq_n_u8 hw q = concat (replicate (vq hw) q)"

definition svdupq_n_f32 :: "sve_hw \<Rightarrow> 'f list \<Rightarrow> 'f list" where
  "svdupq_n_f32 hw q = concat (replicate (vq hw) q)"

definition svdupq_n_f16 :: "sve_hw \<Rightarrow> 'h list \<Rightarrow> 'h list" where
  "svdupq_n_f16 hw q = concat (replicate (vq hw) q)"

text \<open>
  A predicated load reads the active lanes only, so only they can leave the buffer; an
  inactive lane of the result is zero.
\<close>

definition svld1_u8 :: "svbool_t \<Rightarrow> uint8_t list \<Rightarrow> size_t \<Rightarrow> fault + uint8_t list" where
  "svld1_u8 pg p i =
     (if list_all (\<lambda>j. unat i + j < length p) (filter (\<lambda>j. pg ! j) [0..<length pg])
      then Inr (map (\<lambda>j. if pg ! j then p ! (unat i + j) else 0) [0..<length pg])
      else Inl Out_of_bounds)"

definition svld1_f32 :: "'f fpu \<Rightarrow> svbool_t \<Rightarrow> 'f list \<Rightarrow> size_t \<Rightarrow> fault + 'f list" where
  "svld1_f32 fp pg p i =
     (if list_all (\<lambda>e. unat i + e < length p) (filter (\<lambda>e. pg ! (4 * e)) [0..<length pg div 4])
      then Inr (map (\<lambda>e. if pg ! (4 * e) then p ! (unat i + e) else fzero fp)
                  [0..<length pg div 4])
      else Inl Out_of_bounds)"

definition svld1_f16 :: "'h fpu \<Rightarrow> svbool_t \<Rightarrow> 'h list \<Rightarrow> size_t \<Rightarrow> fault + 'h list" where
  "svld1_f16 fp pg p i =
     (if list_all (\<lambda>e. unat i + e < length p) (filter (\<lambda>e. pg ! (2 * e)) [0..<length pg div 2])
      then Inr (map (\<lambda>e. if pg ! (2 * e) then p ! (unat i + e) else fzero fp)
                  [0..<length pg div 2])
      else Inl Out_of_bounds)"

text \<open>Merging forms (\<^verbatim>\<open>_m\<close>): an inactive lane keeps the lane of the first operand.\<close>

definition sveor_u8_m :: "svbool_t \<Rightarrow> uint8_t list \<Rightarrow> uint8_t list \<Rightarrow> uint8_t list" where
  "sveor_u8_m pg op1 op2 =
     map (\<lambda>j. if pg ! j then op1 ! j XOR op2 ! j else op1 ! j) [0..<length op1]"

definition svadd_u8_m :: "svbool_t \<Rightarrow> uint8_t list \<Rightarrow> uint8_t list \<Rightarrow> uint8_t list" where
  "svadd_u8_m pg op1 op2 =
     map (\<lambda>j. if pg ! j then op1 ! j + op2 ! j else op1 ! j) [0..<length op1]"

text \<open>Don't-care forms (\<^verbatim>\<open>_x\<close>): the value of an inactive lane is left to the implementation.\<close>

definition svcnt_u8_x :: "sve_hw \<Rightarrow> svbool_t \<Rightarrow> uint8_t list \<Rightarrow> uint8_t list" where
  "svcnt_u8_x hw pg op =
     map (\<lambda>j. if pg ! j then of_nat (popcount (op ! j)) else cnt_x hw (op ! j)) [0..<length op]"

text \<open>\<^verbatim>\<open>svmla_f32_x(pg, op1, op2, op3)\<close>: \<open>op1 + op2 * op3\<close>, fused, in every active lane.\<close>

definition svmla_f32_x :: "'f fpu \<Rightarrow> svbool_t \<Rightarrow> 'f list \<Rightarrow> 'f list \<Rightarrow> 'f list \<Rightarrow> 'f list" where
  "svmla_f32_x fp pg op1 op2 op3 =
     map (\<lambda>e. if pg ! (4 * e) then fma fp (op2 ! e) (op3 ! e) (op1 ! e)
               else mla_x fp (op1 ! e) (op2 ! e) (op3 ! e))
       [0..<length op1]"

definition svmla_f16_x :: "'h fpu \<Rightarrow> svbool_t \<Rightarrow> 'h list \<Rightarrow> 'h list \<Rightarrow> 'h list \<Rightarrow> 'h list" where
  "svmla_f16_x fp pg op1 op2 op3 =
     map (\<lambda>e. if pg ! (2 * e) then fma fp (op2 ! e) (op3 ! e) (op1 ! e)
               else mla_x fp (op1 ! e) (op2 ! e) (op3 ! e))
       [0..<length op1]"



text \<open>\<^verbatim>\<open>svaddv_u8\<close> adds the active byte lanes into a \<^verbatim>\<open>uint64_t\<close>.\<close>

definition svaddv_u8 :: "svbool_t \<Rightarrow> uint8_t list \<Rightarrow> uint64_t" where
  "svaddv_u8 pg op = sum_list (map (\<lambda>j. if pg ! j then ucast (op ! j) else 0) [0..<length op])"

text \<open>
  \<^verbatim>\<open>svaddv_f32\<close> adds the lanes pairwise, level by level, an inactive lane counting as
  zero; a level of odd length is completed with zero.
\<close>

fun add_pairs :: "'f fpu \<Rightarrow> 'f list \<Rightarrow> 'f list" where
  "add_pairs fp (x # y # xs) = fadd fp x y # add_pairs fp xs"
| "add_pairs fp [x] = [fadd fp x (fzero fp)]"
| "add_pairs fp [] = []"

lemma length_add_pairs: "length (add_pairs fp zs) \<le> Suc (length zs) div 2"
  by (induction fp zs rule: add_pairs.induct) auto

function add_tree :: "'f fpu \<Rightarrow> 'f list \<Rightarrow> 'f" where
  "add_tree fp [] = fzero fp"
| "add_tree fp [x] = x"
| "add_tree fp (x # y # xs) = add_tree fp (add_pairs fp (x # y # xs))"
  by pat_completeness auto
termination
  apply (relation "measure (\<lambda>(fp, xs). length xs)")
   apply simp
  subgoal for fp x y xs
    using length_add_pairs [of fp xs] by simp
  done

definition svaddv_f32 :: "'f fpu \<Rightarrow> svbool_t \<Rightarrow> 'f list \<Rightarrow> 'f" where
  "svaddv_f32 fp pg op =
     add_tree fp (map (\<lambda>e. if pg ! (4 * e) then op ! e else fzero fp) [0..<length op])"

definition svaddv_f16 :: "'h fpu \<Rightarrow> svbool_t \<Rightarrow> 'h list \<Rightarrow> 'h" where
  "svaddv_f16 fp pg op =
     add_tree fp (map (\<lambda>e. if pg ! (2 * e) then op ! e else fzero fp) [0..<length op])"

subsection \<open>\<^verbatim>\<open>simsimd_dot_f32sve\<close>\<close>

text \<open>A \<^verbatim>\<open>do { ... } while (...)\<close> loop: the body runs before the first test.\<close>

partial_function (option) dot_f32sve_loop ::
  "'f fpu \<Rightarrow> sve_hw \<Rightarrow> 'f list \<Rightarrow> 'f list \<Rightarrow> size_t \<Rightarrow> size_t \<Rightarrow> 'f list \<Rightarrow> svbool_t
     \<Rightarrow> 'f list outcome"
where
  "dot_f32sve_loop fp hw a b d i ab_vec pg_vec =
     (case svld1_f32 fp pg_vec a i of Inl e \<Rightarrow> Some (Inl e) | Inr a_vec \<Rightarrow>
      (case svld1_f32 fp pg_vec b i of Inl e \<Rightarrow> Some (Inl e) | Inr b_vec \<Rightarrow>
        let ab_vec = svmla_f32_x fp pg_vec ab_vec a_vec b_vec;
            i = i + svcntw hw;
            pg_vec = svwhilelt_b32 hw i d
        in if svptest_any (svptrue_b32 hw) pg_vec
           then dot_f32sve_loop fp hw a b d i ab_vec pg_vec
           else Some (Inr ab_vec)))"

declare dot_f32sve_loop.simps [code]

definition simsimd_dot_f32sve ::
  "'f fpu \<Rightarrow> sve_hw \<Rightarrow> 'f list \<Rightarrow> 'f list \<Rightarrow> size_t \<Rightarrow> 'f outcome"
where
  "simsimd_dot_f32sve fp hw a b d =
     map_option (map_sum id (svaddv_f32 fp (svptrue_b32 hw)))
       (dot_f32sve_loop fp hw a b d 0
          (svdupq_n_f32 hw [fzero fp, fzero fp, fzero fp, fzero fp])
          (svwhilelt_b32 hw 0 d))"

subsection \<open>\<^verbatim>\<open>simsimd_dot_f16sve\<close>\<close>

text \<open>
  The half-precision variant has the same loop on 16-bit lanes, with a half-precision
  unit of its own.  The pointer casts and the final \<^verbatim>\<open>static_cast<float16_t>\<close> keep
  the type and change nothing.
\<close>

partial_function (option) dot_f16sve_loop ::
  "'h fpu \<Rightarrow> sve_hw \<Rightarrow> 'h list \<Rightarrow> 'h list \<Rightarrow> size_t \<Rightarrow> size_t \<Rightarrow> 'h list \<Rightarrow> svbool_t
     \<Rightarrow> 'h list outcome"
where
  "dot_f16sve_loop fp hw a b d i ab_vec pg_vec =
     (case svld1_f16 fp pg_vec a i of Inl e \<Rightarrow> Some (Inl e) | Inr a_vec \<Rightarrow>
      (case svld1_f16 fp pg_vec b i of Inl e \<Rightarrow> Some (Inl e) | Inr b_vec \<Rightarrow>
        let ab_vec = svmla_f16_x fp pg_vec ab_vec a_vec b_vec;
            i = i + svcnth hw;
            pg_vec = svwhilelt_b16 hw i d
        in if svptest_any (svptrue_b16 hw) pg_vec
           then dot_f16sve_loop fp hw a b d i ab_vec pg_vec
           else Some (Inr ab_vec)))"

declare dot_f16sve_loop.simps [code]

definition simsimd_dot_f16sve ::
  "'h fpu \<Rightarrow> sve_hw \<Rightarrow> 'h list \<Rightarrow> 'h list \<Rightarrow> size_t \<Rightarrow> 'h outcome"
where
  "simsimd_dot_f16sve fp hw a_enum b_enum d =
     (let a = a_enum; b = b_enum
      in map_option (map_sum id (svaddv_f16 fp (svptrue_b16 hw)))
           (dot_f16sve_loop fp hw a b d 0
              (svdupq_n_f16 hw
                 [fzero fp, fzero fp, fzero fp, fzero fp, fzero fp, fzero fp, fzero fp, fzero fp])
              (svwhilelt_b16 hw 0 d)))"

subsection \<open>\<^verbatim>\<open>simsimd_cos_f32sve\<close>\<close>




subsection \<open>\<^verbatim>\<open>simsimd_euclidean_f32sve\<close>\<close>




subsection \<open>\<^verbatim>\<open>simsimd_euclidean_f16sve\<close>\<close>




subsection \<open>\<^verbatim>\<open>simsimd_hamming_u1x8sve\<close>\<close>

text \<open>
  The first predicate is built for byte lanes (\<^verbatim>\<open>svwhilelt_b8\<close>), the later ones for
  32-bit lanes (\<^verbatim>\<open>svwhilelt_b32\<close>); the counter advances by
  \<^verbatim>\<open>svcntb() * __CHAR_BIT__\<close>, and the final reduction is governed by
  \<^verbatim>\<open>svptrue_b32()\<close>.
\<close>

partial_function (option) hamming_u1x8sve_loop ::
  "sve_hw \<Rightarrow> uint8_t list \<Rightarrow> uint8_t list \<Rightarrow> size_t \<Rightarrow> size_t \<Rightarrow> uint8_t list \<Rightarrow> svbool_t
     \<Rightarrow> uint8_t list outcome"
where
  "hamming_u1x8sve_loop hw a b d i d_vec pg_vec =
     (case svld1_u8 pg_vec a i of Inl e \<Rightarrow> Some (Inl e) | Inr a_vec \<Rightarrow>
      (case svld1_u8 pg_vec b i of Inl e \<Rightarrow> Some (Inl e) | Inr b_vec \<Rightarrow>
        let a_xor_b_vec = sveor_u8_m pg_vec a_vec b_vec;
            d_vec = svadd_u8_m pg_vec d_vec (svcnt_u8_x hw pg_vec a_xor_b_vec);
            i = i + svcntb hw * 8;
            pg_vec = svwhilelt_b32 hw i d
        in if svptest_any (svptrue_b32 hw) pg_vec
           then hamming_u1x8sve_loop hw a b d i d_vec pg_vec
           else Some (Inr d_vec)))"

declare hamming_u1x8sve_loop.simps [code]

definition simsimd_hamming_u1x8sve ::
  "sve_hw \<Rightarrow> uint8_t list \<Rightarrow> uint8_t list \<Rightarrow> size_t \<Rightarrow> size_t outcome"
where
  "simsimd_hamming_u1x8sve hw a b d =
     map_option (map_sum id (svaddv_u8 (svptrue_b32 hw)))
       (hamming_u1x8sve_loop hw a b d 0 (svdupq_n_u8 hw (replicate 16 0)) (svwhilelt_b8 hw 0 d))"

section \<open>The scalar reference of the Hamming distance\<close>

text \<open>
  In the words of the specification: both buffers are packed bit arrays of \<open>d\<close> bits, and
  the distance is the number of positions below \<open>d\<close> at which the bits differ, the
  population count of \<open>a XOR b\<close>.  Bit \<open>k\<close> of a buffer is bit \<open>k mod 8\<close> of its byte
  \<open>k div 8\<close>.
\<close>

definition buffer_bit :: "uint8_t list \<Rightarrow> nat \<Rightarrow> bool" where
  "buffer_bit p k = bit (p ! (k div 8)) (k mod 8)"

definition hamming_reference :: "uint8_t list \<Rightarrow> uint8_t list \<Rightarrow> nat \<Rightarrow> nat" where
  "hamming_reference a b d = length (filter (\<lambda>k. buffer_bit a k \<noteq> buffer_bit b k) [0..<d])"

text \<open>The number of bits in which byte \<open>j\<close> of one buffer differs from byte \<open>j\<close> of the other.\<close>

definition byte_diff :: "uint8_t list \<Rightarrow> uint8_t list \<Rightarrow> nat \<Rightarrow> nat" where
  "byte_diff a b j = popcount (a ! j XOR b ! j)"

section \<open>Properties\<close>

subsection \<open>Auxiliary facts\<close>

lemma popcount_0: "popcount (0 :: 'a::len word) = 0"
  by (simp add: popcount_def)

lemma popcount_255: "popcount (255 :: uint8_t) = 8"
  by code_simp

lemma only_fault: "(e :: fault) = Out_of_bounds"
  by (cases e) simp

lemma unat_size_t_less: "unat (d :: size_t) < 2 ^ 64"
  using unsigned_less [of d, where ?'a = nat] by simp

lemma unat_add_of_nat:
  fixes i :: size_t
  assumes "unat i + k < 2 ^ 64"
  shows "unat (i + of_nat k) = unat i + k"
proof -
  have "unat (i + of_nat k) = (unat i + k mod 2 ^ 64) mod 2 ^ 64"
    by (simp add: unat_word_ariths unat_of_nat)
  also have "\<dots> = unat i + k"
    using assms by simp
  finally show ?thesis .
qed



text \<open>A call returns \<open>r\<close> exactly when its loop returns a register that reduces to \<open>r\<close>.\<close>

lemma outcome_map_Inr:
  "map_option (map_sum id f) x = Some (Inr r) \<longleftrightarrow> (\<exists>v. x = Some (Inr v) \<and> r = f v)"
  by (cases x) (auto simp: map_sum_def split: sum.splits)

subsection \<open>The 128-bit Hamming kernel returns an 8-bit sum\<close>

lemma ucast_u8_le_255: "unat (ucast (x :: uint8_t) :: size_t) \<le> 255"
proof -
  have lt: "unat x < 2 ^ 8"
    using unsigned_less [of x, where ?'a = nat] by simp
  have "unat (ucast x :: size_t) = unat x"
    using lt by (simp add: unsigned_ucast_eq take_bit_nat_eq_self)
  with lt show ?thesis by simp
qed

text \<open>
  The loop of \<open>simsimd_hamming_u1x128sve\<close> compares the byte position \<open>i\<close> with
  \<open>d\<close> and consumes 16 bytes per iteration.  With \<open>d\<close> a multiple of 16 and \<open>d\<close>
  bytes in both buffers it returns, and the horizontal sum of its 8-bit lanes is the number
  of differing bits of those \<open>d\<close> bytes, modulo 256.
\<close>

lemma sum_list_map2_add:
  fixes xs ys :: "'a::comm_monoid_add list"
  assumes "length xs = length ys"
  shows "sum_list (map2 (+) xs ys) = sum_list xs + sum_list ys"
  using assms by (induction xs ys rule: list_induct2) (simp_all add: ac_simps)

lemma group_popcount:
  assumes "off + 16 \<le> length a" "off + 16 \<le> length b"
  shows "sum_list (vcntq_u8 (veorq_u8 (take 16 (drop off a)) (take 16 (drop off b))))
           = of_nat (\<Sum>j = off..<off + 16. byte_diff a b j)"
proof -
  have "veorq_u8 (take 16 (drop off a)) (take 16 (drop off b))
          = map (\<lambda>j. a ! (off + j) XOR b ! (off + j)) [0..<16]"
    unfolding veorq_u8_def using assms
    by (intro nth_equalityI) simp_all
  then have "sum_list (vcntq_u8 (veorq_u8 (take 16 (drop off a)) (take 16 (drop off b))))
          = sum_list (map (\<lambda>j. of_nat (byte_diff a b (off + j))) [0..<16])"
    by (simp add: vcntq_u8_def byte_diff_def comp_def)
  also have "\<dots> = (\<Sum>j = 0..<16. of_nat (byte_diff a b (off + j)))"
    by (simp only: interv_sum_list_conv_sum_set_nat set_upt)
  also have "\<dots> = of_nat (\<Sum>j = 0..<16. byte_diff a b (off + j))"
    by (simp only: of_nat_sum)
  also have "(\<Sum>j = 0..<16. byte_diff a b (off + j)) = (\<Sum>j = off..<off + 16. byte_diff a b j)"
    using sum.shift_bounds_nat_ivl [of "byte_diff a b" 0 off 16] by (simp add: add.commute)
  finally show ?thesis .
qed

lemma hamming_u1x128sve_loop_value:
  "unat d = unat i + 16 * n \<Longrightarrow> unat d \<le> length a \<Longrightarrow> unat d \<le> length b \<Longrightarrow>
   length d_vec = 16 \<Longrightarrow>
     \<exists>v. hamming_u1x128sve_loop a b d i d_vec = Some (Inr v)
       \<and> vaddvq_u8 v = vaddvq_u8 d_vec + of_nat (\<Sum>j = unat i..<unat d. byte_diff a b j)"
proof (induction n arbitrary: i d_vec)
  case 0
  then have "i = d" by (simp add: word_unat_eq_iff)
  then show ?case by (simp add: hamming_u1x128sve_loop.simps)
next
  case (Suc n)
  then have le: "unat i + 16 \<le> unat d" by simp
  then have ne: "i \<noteq> d" by auto
  from le unat_size_t_less [of d] have "unat i + 16 < 2 ^ 64" by simp
  from unat_add_of_nat [OF this] have step: "unat (i + 16) = unat i + 16" by simp
  let ?av = "take 16 (drop (unat i) a)" and ?bv = "take 16 (drop (unat i) b)"
  let ?dv = "vaddq_u8 d_vec (vcntq_u8 (veorq_u8 ?av ?bv))"
  from Suc.prems le have la: "vld1q_u8 a i = Inr ?av" and lb: "vld1q_u8 b i = Inr ?bv"
    by (simp_all add: vld1q_u8_def load_elems_def)
  from Suc.prems le have len: "length (vcntq_u8 (veorq_u8 ?av ?bv)) = 16"
    by (simp add: vcntq_u8_def veorq_u8_def)
  with Suc.prems(4) have len': "length ?dv = 16" by (simp add: vaddq_u8_def)
  have "unat d = unat (i + 16) + 16 * n" using Suc.prems(1) step by simp
  from Suc.IH [OF this Suc.prems(2,3) len']
  obtain v where v: "hamming_u1x128sve_loop a b d (i + 16) ?dv = Some (Inr v)"
    and sum: "vaddvq_u8 v = vaddvq_u8 ?dv + of_nat (\<Sum>j = unat (i + 16)..<unat d. byte_diff a b j)"
    by blast
  from Suc.prems le have grp: "sum_list (vcntq_u8 (veorq_u8 ?av ?bv))
      = of_nat (\<Sum>j = unat i..<unat i + 16. byte_diff a b j)"
    by (intro group_popcount) simp_all
  have "vaddvq_u8 ?dv = vaddvq_u8 d_vec + of_nat (\<Sum>j = unat i..<unat i + 16. byte_diff a b j)"
    unfolding vaddvq_u8_def vaddq_u8_def
    using sum_list_map2_add [of d_vec "vcntq_u8 (veorq_u8 ?av ?bv)"] len Suc.prems(4) grp
    by simp
  moreover have "(\<Sum>j = unat i..<unat d. byte_diff a b j)
      = (\<Sum>j = unat i..<unat i + 16. byte_diff a b j) + (\<Sum>j = unat i + 16..<unat d. byte_diff a b j)"
    using le by (intro sum.atLeastLessThan_concat [symmetric]) simp_all
  ultimately have "vaddvq_u8 v = vaddvq_u8 d_vec + of_nat (\<Sum>j = unat i..<unat d. byte_diff a b j)"
    using sum step by (simp add: add.assoc)
  moreover have "hamming_u1x128sve_loop a b d i d_vec = Some (Inr v)"
    using v ne la lb by (subst hamming_u1x128sve_loop.simps) (simp add: Let_def)
  ultimately show ?case by blast
qed

lemma ucast_of_nat_u8: "(ucast (of_nat n :: uint8_t) :: size_t) = of_nat (n mod 256)"
proof -
  have "unat (ucast (of_nat n :: uint8_t) :: size_t) = n mod 256"
    by (simp add: unsigned_ucast_eq unat_of_nat take_bit_nat_eq_self)
  moreover have "unat (of_nat (n mod 256) :: size_t) = n mod 256"
    by (simp add: unat_of_nat)
  ultimately show ?thesis by (simp add: word_unat_eq_iff)
qed

lemma hamming_u1x128sve_value:
  assumes "16 dvd unat d" "unat d \<le> length a" "unat d \<le> length b"
  shows "simsimd_hamming_u1x128sve a b d
           = Some (Inr (of_nat ((\<Sum>j = 0..<unat d. byte_diff a b j) mod 256)))"
proof -
  from assms(1) obtain n where "unat d = unat (0 :: size_t) + 16 * n" by (auto elim: dvdE)
  from hamming_u1x128sve_loop_value [OF this assms(2,3), of "vdupq_n_u8 0"]
  obtain v where v: "hamming_u1x128sve_loop a b d 0 (vdupq_n_u8 0) = Some (Inr v)"
    and sum: "vaddvq_u8 v = vaddvq_u8 (vdupq_n_u8 0) + of_nat (\<Sum>j = 0..<unat d. byte_diff a b j)"
    by (auto simp: vdupq_n_u8_def)
  have "vaddvq_u8 (vdupq_n_u8 0) = 0"
    by (simp add: vaddvq_u8_def vdupq_n_u8_def sum_list_replicate)
  with sum have "vaddvq_u8 v = of_nat (\<Sum>j = 0..<unat d. byte_diff a b j)"
    by (simp only: add_0_left)
  then have "ucast (vaddvq_u8 v) = (of_nat ((\<Sum>j = 0..<unat d. byte_diff a b j) mod 256) :: size_t)"
    by (simp only: ucast_of_nat_u8)
  with v show ?thesis by (simp add: simsimd_hamming_u1x128sve_def)
qed

text \<open>
  Claim C10.  Whatever the buffers and the length, a value that
  \<open>simsimd_hamming_u1x128sve\<close> returns lies in \<open>[0, 255]\<close>: the lanes of the
  accumulator are 8-bit sums and the horizontal reduction is an 8-bit sum again, so
  the \<^verbatim>\<open>size_t\<close> result is the zero-extension of a byte.  Where the kernel runs to
  its end (\<open>d\<close> a multiple of 16, \<open>d\<close> bytes in both buffers) it returns the number of
  differing bits of the \<open>d\<close> bytes reduced modulo 256, also when that number exceeds
  255.
\<close>

theorem hamming_u1x128sve_at_most_255:
  "(simsimd_hamming_u1x128sve a b d = Some (Inr r) \<longrightarrow> 0 \<le> unat r \<and> unat r \<le> 255)
   \<and> (16 dvd unat d \<and> unat d \<le> length a \<and> unat d \<le> length b \<longrightarrow>
        simsimd_hamming_u1x128sve a b d
          = Some (Inr (of_nat ((\<Sum>j = 0..<unat d. byte_diff a b j) mod 256))))"
proof (intro conjI impI)
  assume "simsimd_hamming_u1x128sve a b d = Some (Inr r)"
  then obtain d_vec where "r = ucast (vaddvq_u8 d_vec)"
    unfolding simsimd_hamming_u1x128sve_def outcome_map_Inr by blast
  then show "unat r \<le> 255"
    using ucast_u8_le_255 [of "vaddvq_u8 d_vec"] by simp
next
  assume "16 dvd unat d \<and> unat d \<le> length a \<and> unat d \<le> length b"
  then show "simsimd_hamming_u1x128sve a b d
      = Some (Inr (of_nat ((\<Sum>j = 0..<unat d. byte_diff a b j) mod 256)))"
    by (intro hamming_u1x128sve_value) simp_all
qed simp

text \<open>
  At two full 16-byte groups of \<open>0xFF\<close> against zero, 256 bits differ and the kernel
  returns 0.
\<close>

theorem hamming_u1x128sve_at_most_255_witness:
  "simsimd_hamming_u1x128sve (replicate 32 255) (replicate 32 0) 32 = Some (Inr 0)
   \<and> unat (0 :: size_t) \<le> 255
   \<and> 16 dvd unat (32 :: size_t) \<and> unat (32 :: size_t) \<le> length (replicate 32 (255 :: uint8_t))
   \<and> (\<Sum>j = 0..<unat (32 :: size_t). byte_diff (replicate 32 255) (replicate 32 0) j) = 256"
proof -
  have pre: "16 dvd unat (32 :: size_t) \<and> unat (32 :: size_t) \<le> length (replicate 32 (255 :: uint8_t))
      \<and> unat (32 :: size_t) \<le> length (replicate 32 (0 :: uint8_t))"
    by simp
  have n: "(\<Sum>j = 0..<unat (32 :: size_t). byte_diff (replicate 32 255) (replicate 32 0) j) = 256"
    by (simp add: byte_diff_def popcount_255)
  from hamming_u1x128sve_at_most_255 [of "replicate 32 255" "replicate 32 0" 32 0] pre n
  show ?thesis by simp
qed

subsection \<open>The float dot products: loops of fixed and of predicated step\<close>





text \<open>
  The predicated loop: a lane is loaded only if its index is below \<open>d\<close>, and the loop
  continues exactly while the advanced counter is below \<open>d\<close>.
\<close>

lemma svwhilelt_b32_nth:
  "j < 16 * vq hw \<Longrightarrow> svwhilelt_b32 hw i d ! j = (j mod 4 = 0 \<and> unat i + j div 4 < unat d)"
  by (simp add: svwhilelt_b32_def)

lemma length_svwhilelt_b32: "length (svwhilelt_b32 hw i d) = 16 * vq hw"
  by (simp add: svwhilelt_b32_def)

lemma svld1_f32_whilelt:
  assumes "unat d \<le> length p"
  shows "\<exists>v. svld1_f32 fp (svwhilelt_b32 hw i d) p i = Inr v"
proof -
  have "list_all (\<lambda>e. unat i + e < length p)
          (filter (\<lambda>e. svwhilelt_b32 hw i d ! (4 * e)) [0..<length (svwhilelt_b32 hw i d) div 4])"
    using assms by (auto simp: list_all_iff length_svwhilelt_b32 svwhilelt_b32_nth)
  then show ?thesis by (simp add: svld1_f32_def)
qed

lemma svptest_any_whilelt:
  assumes "0 < vq hw"
  shows "svptest_any (svptrue_b32 hw) (svwhilelt_b32 hw i d) \<longleftrightarrow> unat i < unat d"
proof
  assume "svptest_any (svptrue_b32 hw) (svwhilelt_b32 hw i d)"
  then obtain j where "j < 16 * vq hw" "svwhilelt_b32 hw i d ! j"
    by (auto simp: svptest_any_def list_ex_iff in_set_zip length_svwhilelt_b32 svptrue_b32_def)
  then show "unat i < unat d" by (simp add: svwhilelt_b32_nth)
next
  assume lt: "unat i < unat d"
  have "(svptrue_b32 hw ! 0, svwhilelt_b32 hw i d ! 0)
          \<in> set (zip (svptrue_b32 hw) (svwhilelt_b32 hw i d))"
    using assms
    by (auto simp: in_set_zip length_svwhilelt_b32 svptrue_b32_def intro!: exI [of _ 0])
  moreover have "svptrue_b32 hw ! 0" "svwhilelt_b32 hw i d ! 0"
    using assms lt by (simp_all add: svptrue_b32_def svwhilelt_b32_nth)
  ultimately show "svptest_any (svptrue_b32 hw) (svwhilelt_b32 hw i d)"
    unfolding svptest_any_def list_ex_iff by (metis (mono_tags, lifting) case_prod_conv)
qed

lemma dot_f32sve_loop_returns:
  assumes "0 < vq hw" "unat d + 4 * vq hw < 2 ^ 64" "unat d \<le> length a" "unat d \<le> length b"
  shows "unat i \<le> unat d \<Longrightarrow>
           \<exists>r. dot_f32sve_loop fp hw a b d i acc (svwhilelt_b32 hw i d) = Some (Inr r)"
proof (induction "unat d - unat i" arbitrary: i acc rule: less_induct)
  case less
  obtain av where la: "svld1_f32 fp (svwhilelt_b32 hw i d) a i = Inr av"
    using svld1_f32_whilelt [OF assms(3)] by blast
  obtain bv where lb: "svld1_f32 fp (svwhilelt_b32 hw i d) b i = Inr bv"
    using svld1_f32_whilelt [OF assms(4)] by blast
  have step: "unat (i + svcntw hw) = unat i + 4 * vq hw"
    unfolding svcntw_def using less.prems assms(2) by (intro unat_add_of_nat) simp
  show ?case
  proof (cases "unat (i + svcntw hw) < unat d")
    case True
    then have "unat d - unat (i + svcntw hw) < unat d - unat i"
      using step assms(1) by simp
    from less.hyps [OF this] True
    obtain r where "dot_f32sve_loop fp hw a b d (i + svcntw hw)
        (svmla_f32_x fp (svwhilelt_b32 hw i d) acc av bv)
        (svwhilelt_b32 hw (i + svcntw hw) d) = Some (Inr r)"
      by (meson less_imp_le)
    then show ?thesis
      using True la lb svptest_any_whilelt [OF assms(1)]
      by (subst dot_f32sve_loop.simps) (simp add: Let_def)
  next
    case False
    then show ?thesis
      using la lb svptest_any_whilelt [OF assms(1)]
      by (subst dot_f32sve_loop.simps) (simp add: Let_def)
  qed
qed

subsection \<open>Exchanging the two buffers\<close>

lemma map2_commute:
  assumes "\<And>x y. f x y = f y x"
  shows "map2 f xs ys = map2 f ys xs"
proof (induction xs arbitrary: ys)
  case Nil
  then show ?case by simp
next
  case (Cons x xs)
  then show ?case using assms by (cases ys) simp_all
qed

lemma fault_unique: "(x :: fault) = y"
  by (cases x; cases y) simp

lemma option_eqI:
  assumes "\<And>y. u = Some y \<Longrightarrow> v = Some y" and "\<And>y. v = Some y \<Longrightarrow> u = Some y"
  shows "u = v"
  using assms by (cases u; cases v) auto

lemma veorq_u8_commute: "veorq_u8 x y = veorq_u8 y x"
  unfolding veorq_u8_def by (rule map2_commute) (simp add: xor.commute)

lemma hamming_u1x128sve_loop_swap_Some:
  assumes run: "hamming_u1x128sve_loop a b d i d_vec = Some y"
  shows "hamming_u1x128sve_loop b a d i d_vec = Some y"
  apply (rule hamming_u1x128sve_loop.raw_induct [OF _ run])
  subgoal premises p for loop a b d i d_vec y
  proof (cases "i = d")
    case True
    with p(2) show ?thesis by (simp add: hamming_u1x128sve_loop.simps)
  next
    case False
    show ?thesis
    proof (cases "vld1q_u8 a i")
      case (Inl e)
      with p(2) False show ?thesis
        by (subst hamming_u1x128sve_loop.simps) (auto split: sum.splits intro: fault_unique)
    next
      case a: (Inr av)
      show ?thesis
      proof (cases "vld1q_u8 b i")
        case (Inl e)
        with p(2) False a show ?thesis
          by (subst hamming_u1x128sve_loop.simps) auto
      next
        case b: (Inr bv)
        from p(2) False a b
        have "loop a b d (i + 16) (vaddq_u8 d_vec (vcntq_u8 (veorq_u8 av bv))) = Some y"
          by simp
        from p(1) [OF this] False a b show ?thesis
          by (subst hamming_u1x128sve_loop.simps) (simp add: veorq_u8_commute [of bv av])
      qed
    qed
  qed
  done

lemma hamming_u1x128sve_loop_swap:
  "hamming_u1x128sve_loop a b d i d_vec = hamming_u1x128sve_loop b a d i d_vec"
  by (rule option_eqI) (erule hamming_u1x128sve_loop_swap_Some)+

lemma vmlaq_f32_commute:
  assumes "\<forall>x y. fmul fp x y = fmul fp y x"
  shows "vmlaq_f32 fp acc x y = vmlaq_f32 fp acc y x"
  unfolding vmlaq_f32_def using assms by (simp add: map2_commute [of "fmul fp" x y])

lemma dot_f32x4neon_loop_swap_Some:
  assumes run: "dot_f32x4neon_loop fp a b d i acc = Some y"
  shows "(\<forall>x y. fmul fp x y = fmul fp y x) \<longrightarrow> dot_f32x4neon_loop fp b a d i acc = Some y"
  apply (rule dot_f32x4neon_loop.raw_induct [OF _ run])
  subgoal premises p for loop fp a b d i acc y
  proof (intro impI)
    assume comm: "\<forall>x y. fmul fp x y = fmul fp y x"
    show "dot_f32x4neon_loop fp b a d i acc = Some y"
    proof (cases "i = d")
      case True
      with p(2) show ?thesis by (simp add: dot_f32x4neon_loop.simps)
    next
      case False
      show ?thesis
      proof (cases "vld1q_f32 a i")
        case (Inl e)
        with p(2) False show ?thesis
          by (subst dot_f32x4neon_loop.simps) (auto split: sum.splits intro: fault_unique)
      next
        case a: (Inr av)
        show ?thesis
        proof (cases "vld1q_f32 b i")
          case (Inl e)
          with p(2) False a show ?thesis
            by (subst dot_f32x4neon_loop.simps) auto
        next
          case b: (Inr bv)
          from p(2) False a b
          have "loop fp a b d (i + 4) (vmlaq_f32 fp acc av bv) = Some y"
            by simp
          from p(1) [OF this] comm False a b show ?thesis
            by (subst dot_f32x4neon_loop.simps) (simp add: vmlaq_f32_commute [OF comm, of acc bv av])
        qed
      qed
    qed
  qed
  done

lemma dot_f32x4neon_loop_swap:
  assumes "\<forall>x y. fmul fp x y = fmul fp y x"
  shows "dot_f32x4neon_loop fp a b d i acc = dot_f32x4neon_loop fp b a d i acc"
  by (rule option_eqI) (use assms dot_f32x4neon_loop_swap_Some in blast)+

lemma mm_fmadd_ps_commute:
  assumes "\<forall>x y z. fma fp x y z = fma fp y x z"
  shows "mm_fmadd_ps fp x y z = mm_fmadd_ps fp y x z"
  unfolding mm_fmadd_ps_def
proof (induction x arbitrary: y z)
  case Nil
  then show ?case by simp
next
  case (Cons u x)
  then show ?case using assms by (cases y; cases z) simp_all
qed

lemma dot_f32x4avx2_loop_swap_Some:
  assumes run: "dot_f32x4avx2_loop fp a b d i acc = Some y"
  shows "(\<forall>x y z. fma fp x y z = fma fp y x z) \<longrightarrow> dot_f32x4avx2_loop fp b a d i acc = Some y"
  apply (rule dot_f32x4avx2_loop.raw_induct [OF _ run])
  subgoal premises p for loop fp a b d i acc y
  proof (intro impI)
    assume comm: "\<forall>x y z. fma fp x y z = fma fp y x z"
    show "dot_f32x4avx2_loop fp b a d i acc = Some y"
    proof (cases "i = d")
      case True
      with p(2) show ?thesis by (simp add: dot_f32x4avx2_loop.simps)
    next
      case False
      show ?thesis
      proof (cases "mm_loadu_ps a i")
        case (Inl e)
        with p(2) False show ?thesis
          by (subst dot_f32x4avx2_loop.simps) (auto split: sum.splits intro: fault_unique)
      next
        case a: (Inr av)
        show ?thesis
        proof (cases "mm_loadu_ps b i")
          case (Inl e)
          with p(2) False a show ?thesis
            by (subst dot_f32x4avx2_loop.simps) auto
        next
          case b: (Inr bv)
          from p(2) False a b
          have "loop fp a b d (i + 4) (mm_fmadd_ps fp av bv acc) = Some y"
            by simp
          from p(1) [OF this] comm False a b show ?thesis
            by (subst dot_f32x4avx2_loop.simps) (simp add: mm_fmadd_ps_commute [OF comm, of bv av])
        qed
      qed
    qed
  qed
  done

lemma dot_f32x4avx2_loop_swap:
  assumes "\<forall>x y z. fma fp x y z = fma fp y x z"
  shows "dot_f32x4avx2_loop fp a b d i acc = dot_f32x4avx2_loop fp b a d i acc"
  by (rule option_eqI) (use assms dot_f32x4avx2_loop_swap_Some in blast)+

lemma mm256_mullo_epi16_commute: "mm256_mullo_epi16 x y = mm256_mullo_epi16 y x"
  unfolding mm256_mullo_epi16_def by (rule map2_commute) (simp add: mult.commute)

lemma dot_i8x16avx2_loop_swap_Some:
  assumes run: "dot_i8x16avx2_loop a b d i acc = Some y"
  shows "dot_i8x16avx2_loop b a d i acc = Some y"
  apply (rule dot_i8x16avx2_loop.raw_induct [OF _ run])
  subgoal premises p for loop a b d i acc y
  proof (cases "i = d")
    case True
    with p(2) show ?thesis by (simp add: dot_i8x16avx2_loop.simps)
  next
    case False
    show ?thesis
    proof (cases "mm_loadu_si128 a i")
      case (Inl e)
      with p(2) False show ?thesis
        by (subst dot_i8x16avx2_loop.simps) (auto split: sum.splits intro: fault_unique)
    next
      case a: (Inr av)
      show ?thesis
      proof (cases "mm_loadu_si128 b i")
        case (Inl e)
        with p(2) False a show ?thesis
          by (subst dot_i8x16avx2_loop.simps) auto
      next
        case b: (Inr bv)
        from p(2) False a b
        have "loop a b d (i + 4)
                (mm256_add_epi16 acc
                   (mm256_mullo_epi16 (mm256_cvtepi8_epi16 av) (mm256_cvtepi8_epi16 bv))) = Some y"
          by simp
        from p(1) [OF this] False a b show ?thesis
          by (subst dot_i8x16avx2_loop.simps)
             (simp add: mm256_mullo_epi16_commute [of "mm256_cvtepi8_epi16 bv"])
      qed
    qed
  qed
  done

lemma dot_i8x16avx2_loop_swap:
  "dot_i8x16avx2_loop a b d i acc = dot_i8x16avx2_loop b a d i acc"
  by (rule option_eqI) (erule dot_i8x16avx2_loop_swap_Some)+

lemma mm_xor_si128_commute: "mm_xor_si128 x y = mm_xor_si128 y x"
  unfolding mm_xor_si128_def by (rule map2_commute) (simp add: xor.commute)

lemma hamming_u1x128avx512_loop_swap_Some:
  assumes run: "hamming_u1x128avx512_loop a b words i d_vec = Some y"
  shows "hamming_u1x128avx512_loop b a words i d_vec = Some y"
  apply (rule hamming_u1x128avx512_loop.raw_induct [OF _ run])
  subgoal premises p for loop a b words i d_vec y
  proof (cases "i = words")
    case True
    with p(2) show ?thesis by (simp add: hamming_u1x128avx512_loop.simps)
  next
    case False
    show ?thesis
    proof (cases "mm_load_si128 a i")
      case (Inl e)
      with p(2) False show ?thesis
        by (subst hamming_u1x128avx512_loop.simps) (auto split: sum.splits intro: fault_unique)
    next
      case a: (Inr av)
      show ?thesis
      proof (cases "mm_load_si128 b i")
        case (Inl e)
        with p(2) False a show ?thesis
          by (subst hamming_u1x128avx512_loop.simps) auto
      next
        case b: (Inr bv)
        from p(2) False a b
        have "loop a b words (i + 2)
                (mm_add_epi64 d_vec (mm_popcnt_epi64 (mm_xor_si128 av bv))) = Some y"
          by simp
        from p(1) [OF this] False a b show ?thesis
          by (subst hamming_u1x128avx512_loop.simps) (simp add: mm_xor_si128_commute [of bv av])
      qed
    qed
  qed
  done

lemma hamming_u1x128avx512_loop_swap:
  "hamming_u1x128avx512_loop a b words i d_vec = hamming_u1x128avx512_loop b a words i d_vec"
  by (rule option_eqI) (erule hamming_u1x128avx512_loop_swap_Some)+

lemma svld1_u8_Inr:
  assumes "svld1_u8 pg p i = Inr v"
  shows "length v = length pg" and "j < length pg \<Longrightarrow> \<not> pg ! j \<Longrightarrow> v ! j = 0"
  using assms by (auto simp: svld1_u8_def split: if_splits)

lemma sveor_u8_m_commute:
  assumes a: "svld1_u8 pg a i = Inr av" and b: "svld1_u8 pg b i = Inr bv"
  shows "sveor_u8_m pg av bv = sveor_u8_m pg bv av"
  unfolding sveor_u8_m_def
  using svld1_u8_Inr [OF a] svld1_u8_Inr [OF b]
  by (auto simp: xor.commute)

lemma hamming_u1x8sve_loop_swap_Some:
  assumes run: "hamming_u1x8sve_loop hw a b d i d_vec pg = Some y"
  shows "hamming_u1x8sve_loop hw b a d i d_vec pg = Some y"
  apply (rule hamming_u1x8sve_loop.raw_induct [OF _ run])
  subgoal premises p for loop hw a b d i d_vec pg y
  proof (cases "svld1_u8 pg a i")
    case (Inl e)
    with p(2) show ?thesis
      by (subst hamming_u1x8sve_loop.simps) (auto split: sum.splits intro: fault_unique)
  next
    case a: (Inr av)
    show ?thesis
    proof (cases "svld1_u8 pg b i")
      case (Inl e)
      with p(2) a show ?thesis
        by (subst hamming_u1x8sve_loop.simps) auto
    next
      case b: (Inr bv)
      note sw = sveor_u8_m_commute [OF b a]
      show ?thesis
      proof (cases "svptest_any (svptrue_b32 hw) (svwhilelt_b32 hw (i + svcntb hw * 8) d)")
        case True
        with p(2) a b
        have "loop hw a b d (i + svcntb hw * 8)
                (svadd_u8_m pg d_vec (svcnt_u8_x hw pg (sveor_u8_m pg av bv)))
                (svwhilelt_b32 hw (i + svcntb hw * 8) d) = Some y"
          by (simp add: Let_def)
        from p(1) [OF this] True a b sw show ?thesis
          by (subst hamming_u1x8sve_loop.simps) (simp add: Let_def)
      next
        case False
        with p(2) a b sw show ?thesis
          by (subst hamming_u1x8sve_loop.simps) (simp add: Let_def)
      qed
    qed
  qed
  done

lemma hamming_u1x8sve_loop_swap:
  "hamming_u1x8sve_loop hw a b d i d_vec pg = hamming_u1x8sve_loop hw b a d i d_vec pg"
  by (rule option_eqI) (erule hamming_u1x8sve_loop_swap_Some)+

lemma svld1_f32_Inr:
  assumes "svld1_f32 fp pg p i = Inr v"
  shows "length v = length pg div 4"
    and "e < length pg div 4 \<Longrightarrow> \<not> pg ! (4 * e) \<Longrightarrow> v ! e = fzero fp"
  using assms by (auto simp: svld1_f32_def split: if_splits)

lemma svmla_f32_x_commute:
  assumes a: "svld1_f32 fp pg a i = Inr av" and b: "svld1_f32 fp pg b i = Inr bv"
    and len: "length acc \<le> length pg div 4"
    and comm: "\<forall>x y z. fma fp x y z = fma fp y x z"
  shows "svmla_f32_x fp pg acc av bv = svmla_f32_x fp pg acc bv av"
  unfolding svmla_f32_x_def
  using svld1_f32_Inr(2) [OF a] svld1_f32_Inr(2) [OF b] len comm
  by auto

lemma length_svmla_f32_x: "length (svmla_f32_x fp pg acc x y) = length acc"
  by (simp add: svmla_f32_x_def)

lemma dot_f32sve_loop_swap_Some:
  assumes run: "dot_f32sve_loop fp hw a b d i acc pg = Some y"
  shows "(\<forall>x y z. fma fp x y z = fma fp y x z) \<and> length pg = 16 * vq hw \<and> length acc \<le> 4 * vq hw
           \<longrightarrow> dot_f32sve_loop fp hw b a d i acc pg = Some y"
  apply (rule dot_f32sve_loop.raw_induct [OF _ run])
  subgoal premises p for loop fp hw a b d i acc pg y
  proof (intro impI, elim conjE)
    assume comm: "\<forall>x y z. fma fp x y z = fma fp y x z"
      and pg: "length pg = 16 * vq hw" and acc: "length acc \<le> 4 * vq hw"
    show "dot_f32sve_loop fp hw b a d i acc pg = Some y"
    proof (cases "svld1_f32 fp pg a i")
      case (Inl e)
      with p(2) show ?thesis
        by (subst dot_f32sve_loop.simps) (auto split: sum.splits intro: fault_unique)
    next
      case a: (Inr av)
      show ?thesis
      proof (cases "svld1_f32 fp pg b i")
        case (Inl e)
        with p(2) a show ?thesis
          by (subst dot_f32sve_loop.simps) auto
      next
        case b: (Inr bv)
        from pg acc have "length acc \<le> length pg div 4" by simp
        note sw = svmla_f32_x_commute [OF b a this comm]
        show ?thesis
        proof (cases "svptest_any (svptrue_b32 hw) (svwhilelt_b32 hw (i + svcntw hw) d)")
          case True
          with p(2) a b
          have "loop fp hw a b d (i + svcntw hw) (svmla_f32_x fp pg acc av bv)
                  (svwhilelt_b32 hw (i + svcntw hw) d) = Some y"
            by (simp add: Let_def)
          from p(1) [OF this] comm acc
          have "dot_f32sve_loop fp hw b a d (i + svcntw hw) (svmla_f32_x fp pg acc av bv)
                  (svwhilelt_b32 hw (i + svcntw hw) d) = Some y"
            by (simp add: length_svwhilelt_b32 length_svmla_f32_x)
          with True a b sw show ?thesis
            by (subst dot_f32sve_loop.simps) (simp add: Let_def)
        next
          case False
          with p(2) a b sw show ?thesis
            by (subst dot_f32sve_loop.simps) (simp add: Let_def)
        qed
      qed
    qed
  qed
  done

lemma dot_f32sve_loop_swap:
  assumes "\<forall>x y z. fma fp x y z = fma fp y x z" "length pg = 16 * vq hw" "length acc \<le> 4 * vq hw"
  shows "dot_f32sve_loop fp hw a b d i acc pg = dot_f32sve_loop fp hw b a d i acc pg"
  by (rule option_eqI) (use assms dot_f32sve_loop_swap_Some in blast)+

lemma length_svdupq_n_f32: "length (svdupq_n_f32 hw [x0, x1, x2, x3]) = 4 * vq hw"
  by (simp add: svdupq_n_f32_def length_concat sum_list_replicate)


lemma length_svwhilelt_b16: "length (svwhilelt_b16 hw i d) = 16 * vq hw"
  by (simp add: svwhilelt_b16_def)

lemma svld1_f16_Inr:
  assumes "svld1_f16 fp pg p i = Inr v"
  shows "length v = length pg div 2"
    and "e < length pg div 2 \<Longrightarrow> \<not> pg ! (2 * e) \<Longrightarrow> v ! e = fzero fp"
  using assms by (auto simp: svld1_f16_def split: if_splits)

lemma svmla_f16_x_commute:
  assumes a: "svld1_f16 fp pg a i = Inr av" and b: "svld1_f16 fp pg b i = Inr bv"
    and len: "length acc \<le> length pg div 2"
    and comm: "\<forall>x y z. fma fp x y z = fma fp y x z"
  shows "svmla_f16_x fp pg acc av bv = svmla_f16_x fp pg acc bv av"
  unfolding svmla_f16_x_def
  using svld1_f16_Inr(2) [OF a] svld1_f16_Inr(2) [OF b] len comm
  by auto

lemma length_svmla_f16_x: "length (svmla_f16_x fp pg acc x y) = length acc"
  by (simp add: svmla_f16_x_def)

lemma dot_f16sve_loop_swap_Some:
  assumes run: "dot_f16sve_loop fp hw a b d i acc pg = Some y"
  shows "(\<forall>x y z. fma fp x y z = fma fp y x z) \<and> length pg = 16 * vq hw \<and> length acc \<le> 8 * vq hw
           \<longrightarrow> dot_f16sve_loop fp hw b a d i acc pg = Some y"
  apply (rule dot_f16sve_loop.raw_induct [OF _ run])
  subgoal premises p for loop fp hw a b d i acc pg y
  proof (intro impI, elim conjE)
    assume comm: "\<forall>x y z. fma fp x y z = fma fp y x z"
      and pg: "length pg = 16 * vq hw" and acc: "length acc \<le> 8 * vq hw"
    show "dot_f16sve_loop fp hw b a d i acc pg = Some y"
    proof (cases "svld1_f16 fp pg a i")
      case (Inl e)
      with p(2) show ?thesis
        by (subst dot_f16sve_loop.simps) (auto split: sum.splits intro: fault_unique)
    next
      case a: (Inr av)
      show ?thesis
      proof (cases "svld1_f16 fp pg b i")
        case (Inl e)
        with p(2) a show ?thesis
          by (subst dot_f16sve_loop.simps) auto
      next
        case b: (Inr bv)
        from pg acc have "length acc \<le> length pg div 2" by simp
        note sw = svmla_f16_x_commute [OF b a this comm]
        show ?thesis
        proof (cases "svptest_any (svptrue_b16 hw) (svwhilelt_b16 hw (i + svcnth hw) d)")
          case True
          with p(2) a b
          have "loop fp hw a b d (i + svcnth hw) (svmla_f16_x fp pg acc av bv)
                  (svwhilelt_b16 hw (i + svcnth hw) d) = Some y"
            by (simp add: Let_def)
          from p(1) [OF this] comm acc
          have "dot_f16sve_loop fp hw b a d (i + svcnth hw) (svmla_f16_x fp pg acc av bv)
                  (svwhilelt_b16 hw (i + svcnth hw) d) = Some y"
            by (simp add: length_svwhilelt_b16 length_svmla_f16_x)
          with True a b sw show ?thesis
            by (subst dot_f16sve_loop.simps) (simp add: Let_def)
        next
          case False
          with p(2) a b sw show ?thesis
            by (subst dot_f16sve_loop.simps) (simp add: Let_def)
        qed
      qed
    qed
  qed
  done

lemma dot_f16sve_loop_swap:
  assumes "\<forall>x y z. fma fp x y z = fma fp y x z" "length pg = 16 * vq hw" "length acc \<le> 8 * vq hw"
  shows "dot_f16sve_loop fp hw a b d i acc pg = dot_f16sve_loop fp hw b a d i acc pg"
  by (rule option_eqI) (use assms dot_f16sve_loop_swap_Some in blast)+

lemma length_svdupq_n_f16:
  "length (svdupq_n_f16 hw [x0, x1, x2, x3, x4, x5, x6, x7]) = 8 * vq hw"
  by (simp add: svdupq_n_f16_def length_concat sum_list_replicate)

text \<open>
  Claim C8.  Every dot-product kernel and every Hamming kernel gives the same outcome
  when its two buffers are exchanged: the same returned value, and where one call does
  not return, neither does the other.  For the float kernels this needs only that the
  hardware's multiplication and fused multiply-add do not depend on the order of the two
  factors (\<open>fp\<close> is the single-precision unit, \<open>hp\<close> the half-precision one); the
  lengths \<open>d\<close>, \<open>k\<close>, \<open>n\<close> and the buffers are arbitrary.
\<close>

theorem dot_and_hamming_commute:
  assumes "\<forall>x y. fmul fp x y = fmul fp y x" and "\<forall>x y z. fma fp x y z = fma fp y x z"
    and "\<forall>x y z. fma hp x y z = fma hp y x z"
  shows "simsimd_dot_f32sve fp hw a b d = simsimd_dot_f32sve fp hw b a d
       \<and> simsimd_dot_f16sve hp hw a' b' d = simsimd_dot_f16sve hp hw b' a' d
       \<and> simsimd_dot_f32x4neon fp a b d = simsimd_dot_f32x4neon fp b a d
       \<and> simsimd_dot_f32x4avx2 fp a b d = simsimd_dot_f32x4avx2 fp b a d
       \<and> simsimd_dot_i8x16avx2 p q k = simsimd_dot_i8x16avx2 q p k
       \<and> simsimd_hamming_u1x8sve hw p q n = simsimd_hamming_u1x8sve hw q p n
       \<and> simsimd_hamming_u1x128sve p q n = simsimd_hamming_u1x128sve q p n
       \<and> simsimd_hamming_u1x128avx512 p q n = simsimd_hamming_u1x128avx512 q p n"
proof (intro conjI)
  have "dot_f32sve_loop fp hw a b d 0 (svdupq_n_f32 hw [fzero fp, fzero fp, fzero fp, fzero fp])
          (svwhilelt_b32 hw 0 d)
      = dot_f32sve_loop fp hw b a d 0 (svdupq_n_f32 hw [fzero fp, fzero fp, fzero fp, fzero fp])
          (svwhilelt_b32 hw 0 d)"
    by (rule dot_f32sve_loop_swap [OF assms(2)])
       (simp_all add: length_svwhilelt_b32 length_svdupq_n_f32)
  then show "simsimd_dot_f32sve fp hw a b d = simsimd_dot_f32sve fp hw b a d"
    unfolding simsimd_dot_f32sve_def by simp
  have "dot_f16sve_loop hp hw a' b' d 0
          (svdupq_n_f16 hw
             [fzero hp, fzero hp, fzero hp, fzero hp, fzero hp, fzero hp, fzero hp, fzero hp])
          (svwhilelt_b16 hw 0 d)
      = dot_f16sve_loop hp hw b' a' d 0
          (svdupq_n_f16 hw
             [fzero hp, fzero hp, fzero hp, fzero hp, fzero hp, fzero hp, fzero hp, fzero hp])
          (svwhilelt_b16 hw 0 d)"
    by (rule dot_f16sve_loop_swap [OF assms(3)])
       (simp_all add: length_svwhilelt_b16 length_svdupq_n_f16)
  then show "simsimd_dot_f16sve hp hw a' b' d = simsimd_dot_f16sve hp hw b' a' d"
    unfolding simsimd_dot_f16sve_def by simp
  show "simsimd_dot_f32x4neon fp a b d = simsimd_dot_f32x4neon fp b a d"
    unfolding simsimd_dot_f32x4neon_def by (simp add: dot_f32x4neon_loop_swap [OF assms(1), of a b])
  show "simsimd_dot_f32x4avx2 fp a b d = simsimd_dot_f32x4avx2 fp b a d"
    unfolding simsimd_dot_f32x4avx2_def by (simp add: dot_f32x4avx2_loop_swap [OF assms(2), of a b])
  show "simsimd_dot_i8x16avx2 p q k = simsimd_dot_i8x16avx2 q p k"
    unfolding simsimd_dot_i8x16avx2_def by (simp add: dot_i8x16avx2_loop_swap [of p q])
  show "simsimd_hamming_u1x8sve hw p q n = simsimd_hamming_u1x8sve hw q p n"
    unfolding simsimd_hamming_u1x8sve_def by (simp add: hamming_u1x8sve_loop_swap [of hw p q])
  show "simsimd_hamming_u1x128sve p q n = simsimd_hamming_u1x128sve q p n"
    unfolding simsimd_hamming_u1x128sve_def by (simp add: hamming_u1x128sve_loop_swap [of p q])
  show "simsimd_hamming_u1x128avx512 p q n = simsimd_hamming_u1x128avx512 q p n"
    unfolding simsimd_hamming_u1x128avx512_def
    by (simp add: hamming_u1x128avx512_loop_swap [of p q])
qed

text \<open>
  The exact unit satisfies the three hypotheses; at the inputs below both orders
  return, and return the same value.
\<close>

theorem dot_and_hamming_commute_witness:
  "(\<forall>x y. fmul exact_fpu x y = fmul exact_fpu y x)
   \<and> (\<forall>x y z. fma exact_fpu x y z = fma exact_fpu y x z)
   \<and> simsimd_dot_f32sve exact_fpu sve_128 [1, 2, 3, 4, 5] [5, 6, 7, 8, 9] 5 = Some (Inr 115)
   \<and> simsimd_dot_f32sve exact_fpu sve_128 [5, 6, 7, 8, 9] [1, 2, 3, 4, 5] 5 = Some (Inr 115)
   \<and> simsimd_hamming_u1x128sve (replicate 16 255) (replicate 16 1) 16 = Some (Inr 112)
   \<and> simsimd_hamming_u1x128sve (replicate 16 1) (replicate 16 255) 16 = Some (Inr 112)"
proof -
  have c1: "\<forall>x y. fmul exact_fpu x y = fmul exact_fpu y x"
    by (simp add: exact_fpu_def mult.commute)
  have c2: "\<forall>x y z. fma exact_fpu x y z = fma exact_fpu y x z"
    by (simp add: exact_fpu_def mult.commute)
  have v1: "simsimd_dot_f32sve exact_fpu sve_128 [1, 2, 3, 4, 5] [5, 6, 7, 8, 9] 5 = Some (Inr 115)"
    by code_simp
  have v2: "simsimd_hamming_u1x128sve (replicate 16 255) (replicate 16 1) 16 = Some (Inr 112)"
    by code_simp
  note sw = dot_and_hamming_commute [OF c1 c2 c2,
      where hw = sve_128 and a = "[1, 2, 3, 4, 5]" and b = "[5, 6, 7, 8, 9]" and d = 5
        and p = "replicate 16 255" and q = "replicate 16 1" and n = 16]
  from sw v1 have w1:
    "simsimd_dot_f32sve exact_fpu sve_128 [5, 6, 7, 8, 9] [1, 2, 3, 4, 5] 5 = Some (Inr 115)"
    by simp
  from sw v2 have w2:
    "simsimd_hamming_u1x128sve (replicate 16 1) (replicate 16 255) 16 = Some (Inr 112)"
    by simp
  from c1 c2 v1 v2 w1 w2 show ?thesis by blast
qed


subsection \<open>When the kernels return\<close>














lemma outcome_map_returns:
  "(\<exists>r. map_option (map_sum id f) x = Some (Inr r)) \<longleftrightarrow> (\<exists>v. x = Some (Inr v))"
  by (cases x) (auto simp: map_sum_def split: sum.splits)




subsection \<open>Where the kernels leave their contract\<close>

text \<open>
  The 512-bit Hamming kernel computes \<open>words = d / 128\<close>, then walks the buffers as
  64-bit words, two per iteration, until \<open>i = words\<close>.  The counter stays even, so an
  odd \<open>words\<close> is never met.
\<close>

lemma even_step:
  fixes i :: size_t
  assumes "even (unat i)"
  shows "even (unat (i + 2))"
proof -
  have "unat (i + 2) = (unat i + 2) mod 2 ^ 64"
    by (simp add: unat_word_ariths)
  moreover have "(2::nat) dvd 2 ^ 64" by simp
  ultimately show ?thesis using assms
    by (simp add: dvd_mod_iff)
qed

lemma hamming_u1x128avx512_loop_never:
  assumes run: "hamming_u1x128avx512_loop a b words i d_vec = Some y"
  shows "even (unat i) \<longrightarrow> odd (unat words) \<longrightarrow> y = Inl Out_of_bounds"
  apply (rule hamming_u1x128avx512_loop.raw_induct [OF _ run])
  subgoal premises p for loop a b words i d_vec y
    using p(2) p(1) even_step [of i]
    by (auto split: sum.splits if_splits) (metis only_fault)+
  done

lemma hamming_u1x128avx512_never:
  assumes "odd (unat d div 128)"
  shows "simsimd_hamming_u1x128avx512 a b d \<noteq> Some (Inr r)"
proof
  assume "simsimd_hamming_u1x128avx512 a b d = Some (Inr r)"
  then obtain v where "hamming_u1x128avx512_loop a b (d div 128) 0 (mm_set_epi64x 0 0) = Some (Inr v)"
    unfolding simsimd_hamming_u1x128avx512_def Let_def outcome_map_Inr by blast
  from hamming_u1x128avx512_loop_never [OF this] assms show False
    by (simp add: unat_div)
qed

lemma sve_first_load_leaves:
  assumes "0 < vq hw"
  shows "svld1_u8 (svwhilelt_b8 hw 0 8) [x] 0 = Inl Out_of_bounds"
proof -
  have "1 \<in> set (filter (\<lambda>j. svwhilelt_b8 hw 0 8 ! j) [0..<length (svwhilelt_b8 hw 0 8)])"
    using assms by (simp add: svwhilelt_b8_def)
  then have "\<not> list_all (\<lambda>j. unat (0 :: size_t) + j < length [x])
               (filter (\<lambda>j. svwhilelt_b8 hw 0 8 ! j) [0..<length (svwhilelt_b8 hw 0 8)])"
    unfolding list_all_iff by (metis add_0 length_Cons list.size(3) less_irrefl unat_0 One_nat_def)
  then show ?thesis by (simp add: svld1_u8_def)
qed

lemma hamming_u1x8sve_one_byte:
  assumes "0 < vq hw"
  shows "simsimd_hamming_u1x8sve hw [x] [y] 8 = Some (Inl Out_of_bounds)"
  unfolding simsimd_hamming_u1x8sve_def
  by (subst hamming_u1x8sve_loop.simps) (simp add: sve_first_load_leaves [OF assms])


text \<open>
  Claim C1 fails on the code.  With \<open>d = 256\<close> (two groups of 128 bits, 32 bytes) the
  loop runs once, over the first 16 bytes only: a difference of eight bits in byte 16 is
  not counted, the kernel returns 0 where \<open>popcount (a XOR b)\<close> is 8.  With \<open>d = 128\<close>
  and buffers of 16 bytes the exit test \<open>0 = 1\<close>, \<open>2 = 1\<close>, ... is never met and the
  second iteration leaves the buffers.
\<close>

theorem hamming_u1x128avx512_counts_first_half_only:
  "simsimd_hamming_u1x128avx512 (replicate 16 0 @ 255 # replicate 15 0) (replicate 32 0) 256
     = Some (Inr 0)
   \<and> hamming_reference (replicate 16 0 @ 255 # replicate 15 0) (replicate 32 0) 256 = 8
   \<and> simsimd_hamming_u1x128avx512 (replicate 16 255) (replicate 16 0) 128
     = Some (Inl Out_of_bounds)"
  by code_simp

text \<open>
  Claim C3 fails on the code.  With one byte per buffer and \<open>d = 8\<close>,
  \<^verbatim>\<open>svwhilelt_b8(0, 8)\<close> switches on eight byte lanes, so the first load reads bytes
  0..7 of a one-byte buffer.  Where eight bytes are readable, the result is the count of
  byte lanes 0 and 4 (the reduction is governed by \<^verbatim>\<open>svptrue_b32()\<close>), here 9, and not
  the 8 differing bits among the first eight.
\<close>

theorem hamming_u1x8sve_reads_eight_bytes:
  "simsimd_hamming_u1x8sve sve_128 [0xFF] [0x00] 8 = Some (Inl Out_of_bounds)
   \<and> simsimd_hamming_u1x8sve sve_128 [0xFF, 0, 0, 0, 1, 0, 0, 0] [0, 0, 0, 0, 0, 0, 0, 0] 8
       = Some (Inr 9)
   \<and> hamming_reference [0xFF, 0, 0, 0, 1, 0, 0, 0] [0, 0, 0, 0, 0, 0, 0, 0] 8 = 8"
  by code_simp

text \<open>
  Claim C4 fails on the code at its own example.  The loop advances by 4 but loads 16
  bytes, so at \<open>a = b = [1, 1, 1, 1]\<close>, \<open>d = 4\<close> both loads read twelve bytes past the
  buffers.  Lanes 4..7 enter the reduction: with a fifth element 1 in readable memory
  behind the four, the result is 5.
\<close>

theorem dot_i8x16avx2_reads_sixteen_bytes:
  "simsimd_dot_i8x16avx2 [1, 1, 1, 1] [1, 1, 1, 1] 4 = Some (Inl Out_of_bounds)
   \<and> simsimd_dot_i8x16avx2 ([1, 1, 1, 1, 1] @ replicate 11 0) ([1, 1, 1, 1, 1] @ replicate 11 0) 4
       = Some (Inr 5)"
  by code_simp

text \<open>
  Claim C5 fails on the code, for each of the three variants, against the scalar
  reference over \<open>d\<close> bits: the 512-bit kernel counts the first half of the bits; the
  128-bit kernel takes \<open>d\<close> as a number of bytes (it leaves buffers of \<open>d\<close> bits, and
  over readable memory it counts \<open>8 * d\<close> bits modulo 256); the byte-granular kernel
  takes \<open>d\<close> as a number of bytes in its first predicate and adds up every fourth
  byte lane only.
\<close>

theorem hamming_variants_differ_from_reference:
  "simsimd_hamming_u1x128avx512 (replicate 16 0 @ 255 # replicate 15 0) (replicate 32 0) 256
     = Some (Inr 0)
   \<and> hamming_reference (replicate 16 0 @ 255 # replicate 15 0) (replicate 32 0) 256 = 8
   \<and> simsimd_hamming_u1x128sve (replicate 16 255) (replicate 16 0) 128 = Some (Inl Out_of_bounds)
   \<and> simsimd_hamming_u1x128sve (replicate 128 255) (replicate 128 0) 128 = Some (Inr 0)
   \<and> hamming_reference (replicate 128 255) (replicate 128 0) 128 = 128
   \<and> simsimd_hamming_u1x8sve sve_128 [255, 255] [0, 0] 16 = Some (Inl Out_of_bounds)
   \<and> simsimd_hamming_u1x8sve sve_128 (replicate 16 255) (replicate 16 0) 16 = Some (Inr 32)
   \<and> hamming_reference (replicate 16 255) (replicate 16 0) 16 = 16"
  by code_simp

text \<open>
  On \<open>(a, a)\<close> the accumulators of the three Hamming kernels stay zero: a call that
  returns, returns 0.
\<close>

lemma load_elems_length: "load_elems p off n = Inr v \<Longrightarrow> length v = n"
  by (auto simp: load_elems_def split: if_splits)

lemma map2_xor_self: "map2 (XOR) v v = replicate (length v) (0 :: 'a::len word)"
  by (induction v) simp_all

lemma map2_add_zero: "map2 (+) (replicate n (0 :: 'a::len word)) (replicate n 0) = replicate n 0"
  by (induction n) simp_all

lemma hamming_u1x128sve_loop_self:
  assumes run: "hamming_u1x128sve_loop a b d i d_vec = Some y"
  shows "a = b \<and> d_vec = replicate 16 0 \<longrightarrow> y = Inr (replicate 16 0) \<or> y = Inl Out_of_bounds"
  apply (rule hamming_u1x128sve_loop.raw_induct [OF _ run])
  subgoal premises p for loop a b d i d_vec y
  proof (intro impI, elim conjE)
    assume ab: "a = b" and dv: "d_vec = replicate 16 0"
    show "y = Inr (replicate 16 0) \<or> y = Inl Out_of_bounds"
    proof (cases "i = d")
      case True
      with p(2) dv show ?thesis by simp
    next
      case False
      show ?thesis
      proof (cases "vld1q_u8 a i")
        case (Inl e)
        with p(2) False show ?thesis by (auto intro: only_fault)
      next
        case (Inr av)
        then have len: "length av = 16"
          by (simp add: vld1q_u8_def load_elems_length)
        have "vaddq_u8 d_vec (vcntq_u8 (veorq_u8 av av)) = replicate 16 0"
          by (simp add: dv vaddq_u8_def vcntq_u8_def veorq_u8_def map2_xor_self len popcount_0
              map2_add_zero)
        with p(2) False Inr ab
        have "loop a b d (i + 16) (replicate 16 0) = Some y" by simp
        from p(1) [OF this] ab show ?thesis by simp
      qed
    qed
  qed
  done

lemma hamming_u1x128sve_self:
  assumes "simsimd_hamming_u1x128sve a a d = Some (Inr r)"
  shows "r = 0"
proof -
  from assms obtain v where v: "hamming_u1x128sve_loop a a d 0 (vdupq_n_u8 0) = Some (Inr v)"
    and r: "r = ucast (vaddvq_u8 v)"
    unfolding simsimd_hamming_u1x128sve_def outcome_map_Inr by blast
  from hamming_u1x128sve_loop_self [OF v] have "v = replicate 16 0"
    by (simp add: vdupq_n_u8_def)
  with r show ?thesis by (simp add: vaddvq_u8_def sum_list_replicate)
qed

lemma mm_load_si128_length: "mm_load_si128 p i = Inr v \<Longrightarrow> length v = 2"
  by (auto simp: mm_load_si128_def split: sum.splits)

lemma hamming_u1x128avx512_loop_self:
  assumes run: "hamming_u1x128avx512_loop a b words i d_vec = Some y"
  shows "a = b \<and> d_vec = [0, 0] \<longrightarrow> y = Inr [0, 0] \<or> y = Inl Out_of_bounds"
  apply (rule hamming_u1x128avx512_loop.raw_induct [OF _ run])
  subgoal premises p for loop a b words i d_vec y
  proof (intro impI, elim conjE)
    assume ab: "a = b" and dv: "d_vec = [0, 0]"
    show "y = Inr [0, 0] \<or> y = Inl Out_of_bounds"
    proof (cases "i = words")
      case True
      with p(2) dv show ?thesis by simp
    next
      case False
      show ?thesis
      proof (cases "mm_load_si128 a i")
        case (Inl e)
        with p(2) False show ?thesis by (auto intro: only_fault)
      next
        case (Inr av)
        then have "length av = 2" by (rule mm_load_si128_length)
        then obtain x0 x1 where av: "av = [x0, x1]"
          by (cases av; cases "tl av") auto
        have "mm_add_epi64 d_vec (mm_popcnt_epi64 (mm_xor_si128 av av)) = [0, 0]"
          by (simp add: dv av mm_add_epi64_def mm_popcnt_epi64_def mm_xor_si128_def popcount_0)
        with p(2) False Inr ab
        have "loop a b words (i + 2) [0, 0] = Some y" by simp
        from p(1) [OF this] ab show ?thesis by simp
      qed
    qed
  qed
  done

lemma hamming_u1x128avx512_self:
  assumes "simsimd_hamming_u1x128avx512 a a d = Some (Inr r)"
  shows "r = 0"
proof -
  from assms obtain v
    where v: "hamming_u1x128avx512_loop a a (d div 128) 0 (mm_set_epi64x 0 0) = Some (Inr v)"
    and r: "r = mm_cvtm64_si64 (mm_movepi64_pi64 v) + mm_extract_epi64 v 1"
    unfolding simsimd_hamming_u1x128avx512_def Let_def outcome_map_Inr by blast
  from hamming_u1x128avx512_loop_self [OF v] have "v = [0, 0]"
    by (simp add: mm_set_epi64x_def)
  with r show ?thesis
    by (simp add: mm_cvtm64_si64_def mm_movepi64_pi64_def mm_extract_epi64_def)
qed

lemma sve_self_step:
  assumes ld: "svld1_u8 pg a i = Inr av" and len: "length pg = n"
  shows "svadd_u8_m pg (replicate n 0) (svcnt_u8_x hw pg (sveor_u8_m pg av av)) = replicate n 0"
proof -
  have lav: "length av = n" using svld1_u8_Inr(1) [OF ld] len by simp
  have z: "sveor_u8_m pg av av ! j = 0" if "j < n" for j
    using that svld1_u8_Inr(2) [OF ld, of j] len lav by (simp add: sveor_u8_m_def)
  have lz: "length (sveor_u8_m pg av av) = n" by (simp add: sveor_u8_m_def lav)
  show ?thesis
    by (intro nth_equalityI) (simp_all add: svadd_u8_m_def svcnt_u8_x_def lz z popcount_0)
qed

lemma concat_replicate_replicate: "concat (replicate n (replicate k x)) = replicate (k * n) x"
  by (induction n) (simp_all add: replicate_add)

lemma sum_list_all_zero:
  fixes f :: "'a \<Rightarrow> 'b::monoid_add"
  assumes "\<And>x. x \<in> set xs \<Longrightarrow> f x = 0"
  shows "sum_list (map f xs) = 0"
  using assms by (induction xs) simp_all

lemma svaddv_u8_zero: "svaddv_u8 pg (replicate n 0) = 0"
  unfolding svaddv_u8_def by (rule sum_list_all_zero) simp

lemma hamming_u1x8sve_loop_self:
  assumes run: "hamming_u1x8sve_loop hw a b d i d_vec pg = Some y"
  shows "a = b \<and> d_vec = replicate (16 * vq hw) 0 \<and> length pg = 16 * vq hw
           \<longrightarrow> y = Inr (replicate (16 * vq hw) 0) \<or> y = Inl Out_of_bounds"
  apply (rule hamming_u1x8sve_loop.raw_induct [OF _ run])
  subgoal premises p for loop hw a b d i d_vec pg y
  proof (intro impI, elim conjE)
    assume ab: "a = b" and dv: "d_vec = replicate (16 * vq hw) 0" and pg: "length pg = 16 * vq hw"
    show "y = Inr (replicate (16 * vq hw) 0) \<or> y = Inl Out_of_bounds"
    proof (cases "svld1_u8 pg a i")
      case (Inl e)
      with p(2) show ?thesis by (auto intro: only_fault)
    next
      case (Inr av)
      note st = sve_self_step [OF Inr pg, of hw]
      show ?thesis
      proof (cases "svptest_any (svptrue_b32 hw) (svwhilelt_b32 hw (i + svcntb hw * 8) d)")
        case True
        with p(2) Inr ab dv st
        have "loop hw a b d (i + svcntb hw * 8) (replicate (16 * vq hw) 0)
                (svwhilelt_b32 hw (i + svcntb hw * 8) d) = Some y"
          by (simp add: Let_def)
        from p(1) [OF this] ab show ?thesis by (simp add: svwhilelt_b32_def)
      next
        case False
        with p(2) Inr ab dv st show ?thesis by (simp add: Let_def)
      qed
    qed
  qed
  done

lemma hamming_u1x8sve_self:
  assumes "simsimd_hamming_u1x8sve hw a a d = Some (Inr r)"
  shows "r = 0"
proof -
  from assms obtain v
    where v: "hamming_u1x8sve_loop hw a a d 0 (svdupq_n_u8 hw (replicate 16 0)) (svwhilelt_b8 hw 0 d)
                = Some (Inr v)"
    and r: "r = svaddv_u8 (svptrue_b32 hw) v"
    unfolding simsimd_hamming_u1x8sve_def outcome_map_Inr by blast
  have "svdupq_n_u8 hw (replicate 16 0) = replicate (16 * vq hw) 0"
    unfolding svdupq_n_u8_def by (rule concat_replicate_replicate)
  with hamming_u1x8sve_loop_self [OF v] have "v = replicate (16 * vq hw) 0"
    by (simp add: svwhilelt_b8_def)
  with r show ?thesis by (simp add: svaddv_u8_zero)
qed

text \<open>
  Claim C9 fails on the code for the 512-bit Hamming kernel: at \<open>d = 128\<close>, a multiple
  of 128, the call on \<open>(a, a)\<close> does not return 0, it does not return at all.
\<close>

theorem hamming_u1x128avx512_self_does_not_return:
  "simsimd_hamming_u1x128avx512 (replicate 16 1) (replicate 16 1) 128 = Some (Inl Out_of_bounds)"
  by code_simp

subsection \<open>The scalable dot product in arithmetic without rounding\<close>

text \<open>
  The lanes are taken from a commutative semiring, the float unit adds and multiplies
  in it, and the horizontal sum of the last line is the sum of the lanes.
\<close>

lemma sum_list_replicate_zero: "sum_list (replicate n (0 :: 'a::monoid_add)) = 0"
  by (induction n) simp_all

lemma sum_list_add_pairs:
  fixes xs :: "'a::comm_monoid_add list"
  assumes "fadd fp = (+)" "fzero fp = 0"
  shows "sum_list (add_pairs fp xs) = sum_list xs"
  using assms by (induction fp xs rule: add_pairs.induct) (simp_all add: add.assoc)

lemma add_tree_sum_list:
  fixes xs :: "'a::comm_monoid_add list"
  assumes "fadd fp = (+)" "fzero fp = 0"
  shows "add_tree fp xs = sum_list xs"
  using assms
proof (induction fp xs rule: add_tree.induct)
  case (3 fp x y xs)
  then show ?case
    using sum_list_add_pairs [of fp "x # y # xs"] by (simp add: add.assoc)
qed simp_all

lemma svaddv_f32_ptrue:
  fixes v :: "'a::comm_monoid_add list"
  assumes "fadd fp = (+)" "fzero fp = 0" "length v = 4 * vq hw"
  shows "svaddv_f32 fp (svptrue_b32 hw) v = sum_list v"
proof -
  have "map (\<lambda>e. if svptrue_b32 hw ! (4 * e) then v ! e else fzero fp) [0..<length v] = v"
    using assms(3) by (intro nth_equalityI) (simp_all add: svptrue_b32_def)
  then show ?thesis
    by (simp add: svaddv_f32_def add_tree_sum_list [OF assms(1,2)])
qed

text \<open>One predicated multiply-accumulate adds the products of the lanes below \<open>d\<close>.\<close>

lemma sum_if_below:
  fixes g :: "nat \<Rightarrow> 'a::comm_monoid_add"
  shows "(\<Sum>e = 0..<n. if i + e < d then g (i + e) else 0) = (\<Sum>k = i..<min d (i + n). g k)"
proof (induction n)
  case 0
  then show ?case by simp
next
  case (Suc n)
  show ?case
  proof (cases "i + n < d")
    case True
    then have "min d (i + Suc n) = Suc (i + n)" "min d (i + n) = i + n" by simp_all
    with Suc True show ?thesis by simp
  next
    case False
    then have "min d (i + Suc n) = min d (i + n)" by simp
    with Suc False show ?thesis by simp
  qed
qed

lemma mla_step_sum:
  fixes acc :: "'a::comm_semiring_0 list"
  assumes fma: "fma fp = (\<lambda>x y z. x * y + z)" and keep: "\<forall>c. mla_x fp c 0 0 = c"
    and z: "fzero fp = 0"
    and la: "svld1_f32 fp (svwhilelt_b32 hw i d) a i = Inr av"
    and lb: "svld1_f32 fp (svwhilelt_b32 hw i d) b i = Inr bv"
    and len: "length acc = 4 * vq hw"
  shows "sum_list (svmla_f32_x fp (svwhilelt_b32 hw i d) acc av bv)
           = sum_list acc + (\<Sum>k = unat i..<min (unat d) (unat i + 4 * vq hw). a ! k * b ! k)"
proof -
  let ?pg = "svwhilelt_b32 hw i d"
  let ?n = "4 * vq hw"
  have lane: "svmla_f32_x fp ?pg acc av bv ! e
      = acc ! e + (if unat i + e < unat d then a ! (unat i + e) * b ! (unat i + e) else 0)"
    if "e < ?n" for e
  proof -
    from that have pg: "?pg ! (4 * e) = (unat i + e < unat d)"
      by (simp add: svwhilelt_b32_nth)
    from la lb that have av: "av ! e = (if ?pg ! (4 * e) then a ! (unat i + e) else 0)"
      and bv: "bv ! e = (if ?pg ! (4 * e) then b ! (unat i + e) else 0)"
      by (auto simp: svld1_f32_def length_svwhilelt_b32 z split: if_splits)
    show ?thesis
      using that len pg av bv keep by (simp add: svmla_f32_x_def fma add.commute)
  qed
  have "sum_list (svmla_f32_x fp ?pg acc av bv)
      = (\<Sum>e = 0..<?n. svmla_f32_x fp ?pg acc av bv ! e)"
    using len by (simp add: sum_list_sum_nth svmla_f32_x_def)
  also have "\<dots> = (\<Sum>e = 0..<?n.
      acc ! e + (if unat i + e < unat d then a ! (unat i + e) * b ! (unat i + e) else 0))"
    by (intro sum.cong) (simp_all add: lane)
  also have "\<dots> = (\<Sum>e = 0..<?n. acc ! e)
      + (\<Sum>e = 0..<?n. if unat i + e < unat d then a ! (unat i + e) * b ! (unat i + e) else 0)"
    by (simp add: sum.distrib)
  also have "(\<Sum>e = 0..<?n. acc ! e) = sum_list acc"
    using len by (simp add: sum_list_sum_nth)
  also have "(\<Sum>e = 0..<?n. if unat i + e < unat d then a ! (unat i + e) * b ! (unat i + e) else 0)
      = (\<Sum>k = unat i..<min (unat d) (unat i + ?n). a ! k * b ! k)"
    by (rule sum_if_below [of "unat i" "unat d" "\<lambda>k. a ! k * b ! k" ?n])
  finally show ?thesis .
qed

lemma dot_f32sve_loop_sum:
  fixes acc :: "'a::comm_semiring_0 list"
  assumes "0 < vq hw" "unat d + 4 * vq hw < 2 ^ 64" "unat d \<le> length a" "unat d \<le> length b"
    and fma: "fma fp = (\<lambda>x y z. x * y + z)" and keep: "\<forall>c. mla_x fp c 0 0 = c"
    and z: "fzero fp = 0"
  shows "unat i \<le> unat d \<Longrightarrow> length acc = 4 * vq hw \<Longrightarrow>
           \<exists>v. dot_f32sve_loop fp hw a b d i acc (svwhilelt_b32 hw i d) = Some (Inr v)
             \<and> length v = 4 * vq hw
             \<and> sum_list v = sum_list acc + (\<Sum>k = unat i..<unat d. a ! k * b ! k)"
proof (induction "unat d - unat i" arbitrary: i acc rule: less_induct)
  case less
  let ?pg = "svwhilelt_b32 hw i d"
  obtain av where la: "svld1_f32 fp ?pg a i = Inr av"
    using svld1_f32_whilelt [OF assms(3)] by blast
  obtain bv where lb: "svld1_f32 fp ?pg b i = Inr bv"
    using svld1_f32_whilelt [OF assms(4)] by blast
  have step: "unat (i + svcntw hw) = unat i + 4 * vq hw"
    unfolding svcntw_def using less.prems assms(2) by (intro unat_add_of_nat) simp
  let ?acc = "svmla_f32_x fp ?pg acc av bv"
  have len: "length ?acc = 4 * vq hw"
    using less.prems(2) by (simp add: svmla_f32_x_def)
  note s1 = mla_step_sum [OF fma keep z la lb less.prems(2)]
  show ?case
  proof (cases "unat (i + svcntw hw) < unat d")
    case True
    then have "unat d - unat (i + svcntw hw) < unat d - unat i"
      using step assms(1) by simp
    from less.hyps [OF this _ len] True
    obtain v where v: "dot_f32sve_loop fp hw a b d (i + svcntw hw) ?acc
        (svwhilelt_b32 hw (i + svcntw hw) d) = Some (Inr v)"
      and lv: "length v = 4 * vq hw"
      and sv: "sum_list v = sum_list ?acc + (\<Sum>k = unat (i + svcntw hw)..<unat d. a ! k * b ! k)"
      by (meson less_imp_le)
    from True step have m: "min (unat d) (unat i + 4 * vq hw) = unat i + 4 * vq hw" by simp
    have "(\<Sum>k = unat i..<unat d. a ! k * b ! k)
        = (\<Sum>k = unat i..<unat i + 4 * vq hw. a ! k * b ! k)
          + (\<Sum>k = unat i + 4 * vq hw..<unat d. a ! k * b ! k)"
      using True step by (intro sum.atLeastLessThan_concat [symmetric]) simp_all
    with sv s1 m step
    have "sum_list v = sum_list acc + (\<Sum>k = unat i..<unat d. a ! k * b ! k)"
      by (simp add: add.assoc)
    moreover have "dot_f32sve_loop fp hw a b d i acc ?pg = Some (Inr v)"
      using v True la lb svptest_any_whilelt [OF assms(1)]
      by (subst dot_f32sve_loop.simps) (simp add: Let_def)
    ultimately show ?thesis using lv by blast
  next
    case False
    with step have m: "min (unat d) (unat i + 4 * vq hw) = unat d" by simp
    have "dot_f32sve_loop fp hw a b d i acc ?pg = Some (Inr ?acc)"
      using False la lb svptest_any_whilelt [OF assms(1)]
      by (subst dot_f32sve_loop.simps) (simp add: Let_def)
    with s1 m len show ?thesis by simp
  qed
qed

text \<open>
  Whatever the float unit, the predicated loads take from the buffers the elements
  below \<open>d\<close> only: the outcome is that on the buffers cut at \<open>d\<close>.
\<close>

lemma svld1_f32_take:
  assumes "unat d \<le> length p"
  shows "svld1_f32 fp (svwhilelt_b32 hw i d) (take (unat d) p) i
           = svld1_f32 fp (svwhilelt_b32 hw i d) p i"
proof -
  let ?pg = "svwhilelt_b32 hw i d"
  have in_d: "unat i + e < unat d" if "e < 4 * vq hw" "?pg ! (4 * e)" for e
    using that by (simp add: svwhilelt_b32_nth)
  have ok: "list_all (\<lambda>e. unat i + e < length p')
          (filter (\<lambda>e. ?pg ! (4 * e)) [0..<length ?pg div 4])" if "unat d \<le> length p'" for p' :: "'a list"
    using that in_d by (fastforce simp: list_all_iff length_svwhilelt_b32)
  have "map (\<lambda>e. if ?pg ! (4 * e) then take (unat d) p ! (unat i + e) else fzero fp)
          [0..<length ?pg div 4]
      = map (\<lambda>e. if ?pg ! (4 * e) then p ! (unat i + e) else fzero fp) [0..<length ?pg div 4]"
    using in_d by (intro map_cong) (auto simp: length_svwhilelt_b32)
  then show ?thesis
    using ok [of p] ok [of "take (unat d) p"] assms by (simp add: svld1_f32_def)
qed

lemma dot_f32sve_loop_take:
  assumes "0 < vq hw" "unat d + 4 * vq hw < 2 ^ 64" "unat d \<le> length a" "unat d \<le> length b"
  shows "unat i \<le> unat d \<Longrightarrow>
           dot_f32sve_loop fp hw (take (unat d) a) (take (unat d) b) d i acc (svwhilelt_b32 hw i d)
             = dot_f32sve_loop fp hw a b d i acc (svwhilelt_b32 hw i d)"
proof (induction "unat d - unat i" arbitrary: i acc rule: less_induct)
  case less
  let ?pg = "svwhilelt_b32 hw i d"
  obtain av where la: "svld1_f32 fp ?pg a i = Inr av"
    using svld1_f32_whilelt [OF assms(3)] by blast
  obtain bv where lb: "svld1_f32 fp ?pg b i = Inr bv"
    using svld1_f32_whilelt [OF assms(4)] by blast
  note ta = la [folded svld1_f32_take [OF assms(3)]]
  note tb = lb [folded svld1_f32_take [OF assms(4)]]
  have step: "unat (i + svcntw hw) = unat i + 4 * vq hw"
    unfolding svcntw_def using less.prems assms(2) by (intro unat_add_of_nat) simp
  show ?case
  proof (cases "unat (i + svcntw hw) < unat d")
    case True
    then have "unat d - unat (i + svcntw hw) < unat d - unat i"
      using step assms(1) by simp
    from less.hyps [OF this] True
    have "dot_f32sve_loop fp hw (take (unat d) a) (take (unat d) b) d (i + svcntw hw)
        (svmla_f32_x fp ?pg acc av bv) (svwhilelt_b32 hw (i + svcntw hw) d)
      = dot_f32sve_loop fp hw a b d (i + svcntw hw)
        (svmla_f32_x fp ?pg acc av bv) (svwhilelt_b32 hw (i + svcntw hw) d)"
      by (meson less_imp_le)
    then show ?thesis
      using True la lb ta tb svptest_any_whilelt [OF assms(1)]
      by (subst (1 2) dot_f32sve_loop.simps) (simp add: Let_def)
  next
    case False
    then show ?thesis
      using la lb ta tb svptest_any_whilelt [OF assms(1)]
      by (subst (1 2) dot_f32sve_loop.simps) (simp add: Let_def)
  qed
qed

text \<open>
  Claim C2, as amended.  On every vector length (\<open>vq > 0\<close>), for every \<open>d\<close> with \<open>d\<close>
  plus one vector of lanes (\<open>4 * vq\<close>) below \<open>2 ^ 64\<close>, \<open>d = 0\<close> and lengths that are no
  multiple of the vector included, and for buffers of at least \<open>d\<close> elements:

  \<^item> Let the lanes be computed without rounding, and let the multiply-accumulate of
    don't-care form leave the accumulator of a lane unchanged when both multiplicands
    are zero, as they are in every lane the predicated loads have switched off.  Then
    \<open>simsimd_dot_f32sve\<close> returns the sum of \<open>a[k] * b[k]\<close> over \<open>k < d\<close>.

  \<^item> For every float unit \<open>fq\<close>, with rounding or without and whatever it leaves in
    switched-off lanes, the outcome is that on the buffers cut at \<open>d\<close>, and it is a
    value: no element at or beyond \<open>d\<close> is loaded, and none enters the result.
\<close>

theorem dot_f32sve_sums_first_d_elements:
  fixes fp :: "'a::comm_semiring_0 fpu" and fq :: "'b fpu"
  assumes "0 < vq hw" and "unat d + 4 * vq hw < 2 ^ 64"
    and "unat d \<le> length a" and "unat d \<le> length b"
    and "unat d \<le> length p" and "unat d \<le> length q"
    and "fzero fp = 0" and "fadd fp = (+)" and "fma fp = (\<lambda>x y z. x * y + z)"
    and "\<forall>c. mla_x fp c 0 0 = c"
  shows "simsimd_dot_f32sve fp hw a b d = Some (Inr (\<Sum>k = 0..<unat d. a ! k * b ! k))
       \<and> simsimd_dot_f32sve fq hw (take (unat d) p) (take (unat d) q) d
           = simsimd_dot_f32sve fq hw p q d
       \<and> (\<exists>r. simsimd_dot_f32sve fq hw (take (unat d) p) (take (unat d) q) d = Some (Inr r))"
proof (intro conjI)
  let ?z = "svdupq_n_f32 hw [fzero fp, fzero fp, fzero fp, fzero fp]"
  have lz: "length ?z = 4 * vq hw" by (rule length_svdupq_n_f32)
  have "?z = replicate (4 * vq hw) 0"
    unfolding svdupq_n_f32_def assms(7)
    using concat_replicate_replicate [of "vq hw" 4 "0::'a"] by (simp add: numeral_eq_Suc)
  then have sz: "sum_list ?z = 0" by (simp add: sum_list_replicate_zero)
  from dot_f32sve_loop_sum [OF assms(1-4) assms(9,10,7), of 0 ?z] lz sz
  obtain v where v: "dot_f32sve_loop fp hw a b d 0 ?z (svwhilelt_b32 hw 0 d) = Some (Inr v)"
    and lv: "length v = 4 * vq hw"
    and sv: "sum_list v = (\<Sum>k = 0..<unat d. a ! k * b ! k)"
    by auto
  from svaddv_f32_ptrue [OF assms(8,7) lv] sv v
  show "simsimd_dot_f32sve fp hw a b d = Some (Inr (\<Sum>k = 0..<unat d. a ! k * b ! k))"
    by (simp add: simsimd_dot_f32sve_def)
next
  from dot_f32sve_loop_take [OF assms(1,2,5,6), of 0]
  show "simsimd_dot_f32sve fq hw (take (unat d) p) (take (unat d) q) d
           = simsimd_dot_f32sve fq hw p q d"
    by (simp add: simsimd_dot_f32sve_def)
next
  have "unat d \<le> length (take (unat d) p)" "unat d \<le> length (take (unat d) q)"
    using assms(5,6) by simp_all
  from dot_f32sve_loop_returns [OF assms(1,2) this, of 0]
  show "\<exists>r. simsimd_dot_f32sve fq hw (take (unat d) p) (take (unat d) q) d = Some (Inr r)"
    unfolding simsimd_dot_f32sve_def outcome_map_returns by simp
qed

text \<open>
  The hypotheses hold for \<open>exact_fpu\<close>; at five elements on 128-bit vectors the kernel
  returns \<open>1 * 5 + 2 * 6 + 3 * 7 + 4 * 8 + 5 * 9 = 115\<close>, and in real arithmetic the
  elements behind the fifth do not change the outcome.
\<close>

theorem dot_f32sve_sums_first_d_elements_witness:
  "0 < vq sve_128 \<and> unat (5 :: size_t) + 4 * vq sve_128 < 2 ^ 64
   \<and> unat (5 :: size_t) \<le> length [1, 2, 3, 4, 5 :: int]
   \<and> unat (5 :: size_t) \<le> length [5, 6, 7, 8, 9 :: int]
   \<and> unat (5 :: size_t) \<le> length [1, 2, 3, 4, 5, 6, 7 :: real]
   \<and> unat (5 :: size_t) \<le> length [5, 6, 7, 8, 9, 10 :: real]
   \<and> fzero exact_fpu = 0 \<and> fadd exact_fpu = (+)
   \<and> fma exact_fpu = (\<lambda>x y z. x * y + z)
   \<and> (\<forall>c. mla_x exact_fpu c 0 0 = c)
   \<and> simsimd_dot_f32sve exact_fpu sve_128 [1, 2, 3, 4, 5] [5, 6, 7, 8, 9] 5
       = Some (Inr 115)
   \<and> simsimd_dot_f32sve real_fpu sve_128 [1, 2, 3, 4, 5] [5, 6, 7, 8, 9] 5
       = simsimd_dot_f32sve real_fpu sve_128 [1, 2, 3, 4, 5, 6, 7] [5, 6, 7, 8, 9, 10] 5
   \<and> (\<exists>r. simsimd_dot_f32sve real_fpu sve_128 [1, 2, 3, 4, 5] [5, 6, 7, 8, 9] 5 = Some (Inr r))"
proof -
  have u: "unat (5 :: size_t) = 5"
    by simp
  have s: "(\<Sum>k = 0..<5. [1, 2, 3, 4, 5 :: int] ! k * [5, 6, 7, 8, 9] ! k) = 115"
    by code_simp
  have t: "take 5 [1, 2, 3, 4, 5, 6, 7 :: real] = [1, 2, 3, 4, 5]"
    "take 5 [5, 6, 7, 8, 9, 10 :: real] = [5, 6, 7, 8, 9]"
    by simp_all
  have h: "fzero exact_fpu = 0" "fadd exact_fpu = (+)"
    "fma exact_fpu = (\<lambda>x y z. x * y + z)" "\<forall>c. mla_x exact_fpu c 0 0 = c"
    by (simp_all add: exact_fpu_def)
  have g: "0 < vq sve_128" "unat (5 :: size_t) + 4 * vq sve_128 < 2 ^ 64"
    "unat (5 :: size_t) \<le> length [1, 2, 3, 4, 5 :: int]"
    "unat (5 :: size_t) \<le> length [5, 6, 7, 8, 9 :: int]"
    "unat (5 :: size_t) \<le> length [1, 2, 3, 4, 5, 6, 7 :: real]"
    "unat (5 :: size_t) \<le> length [5, 6, 7, 8, 9, 10 :: real]"
    by (simp_all add: sve_128_def)
  from dot_f32sve_sums_first_d_elements [OF g h, of real_fpu]
  have "simsimd_dot_f32sve exact_fpu sve_128 [1, 2, 3, 4, 5] [5, 6, 7, 8, 9] 5
       = Some (Inr 115)
   \<and> simsimd_dot_f32sve real_fpu sve_128 [1, 2, 3, 4, 5] [5, 6, 7, 8, 9] 5
       = simsimd_dot_f32sve real_fpu sve_128 [1, 2, 3, 4, 5, 6, 7] [5, 6, 7, 8, 9, 10] 5
   \<and> (\<exists>r. simsimd_dot_f32sve real_fpu sve_128 [1, 2, 3, 4, 5] [5, 6, 7, 8, 9] 5 = Some (Inr r))"
    unfolding u s t .
  with g h show ?thesis
    by blast
qed

text \<open>
  Claim C2 as stated fails: the multiply-accumulate is called in its don't-care form,
  which binds no value to the lanes the predicate switches off.  When such a lane
  receives the first multiplicand (\<open>exact_fpu_multiplicand\<close>), the three lanes that the
  last, partial group switches off lose what they had accumulated: the kernel returns
  \<open>1 * 5 + 5 * 9 = 50\<close> at \<open>d = 5\<close>, where the sum over the first five elements is 115.
\<close>

theorem dot_f32sve_multiplicand_lane_loses_sums:
  "simsimd_dot_f32sve exact_fpu_multiplicand sve_128 [1, 2, 3, 4, 5] [5, 6, 7, 8, 9] 5
     = Some (Inr 50)
   \<and> (\<Sum>k \<leftarrow> [0, 1, 2, 3, 4]. [1, 2, 3, 4, 5 :: int] ! k * [5, 6, 7, 8, 9] ! k) = 115"
  by code_simp

end
